theory Spec2Isabelle
  imports Main "HOL-Library.List_Lexorder" "HOL-Library.Product_Lexorder" "HOL-Library.Multiset"
begin

section \<open>Text primitives of the blocklist converter\<close>

text \<open>
  The program (\<^verbatim>\<open>main.py\<close>) works on Python \<^verbatim>\<open>str\<close> values, which are sequences of
  Unicode code points. A string is modelled as the list of its code points, and a
  literal of the program is written \<open>str ''...''\<close>.
\<close>

type_synonym ustring = "nat list"

definition str :: "string \<Rightarrow> ustring" where
  "str s = map of_char s"

text \<open>
  Single characters of the program are written by their code points: 46 is the dot, 45
  the hyphen, 95 the underscore, 94 the caret, 44 the comma, 10 the line feed and 13 the
  carriage return (lemma \<open>code_points\<close> below).
\<close>

text \<open>
  White space is what \<^verbatim>\<open>str.isspace\<close> accepts on one character; \<^verbatim>\<open>str.strip\<close>,
  \<^verbatim>\<open>str.split\<close> and the class \<^verbatim>\<open>\s\<close> of a \<^verbatim>\<open>str\<close> pattern use the same test. These
  are the code points TAB to CR, FS to US, the blank, U+0085, U+00A0, U+1680, U+2000 to
  U+200A, U+2028, U+2029, U+202F, U+205F and U+3000.
\<close>

definition is_space :: "nat \<Rightarrow> bool" where
  "is_space c =
     (if c < 128 then (9 \<le> c \<and> c \<le> 13) \<or> (28 \<le> c \<and> c \<le> 32)
      else if c < 256 then c = 0x85 \<or> c = 0xA0
      else c = 0x1680 \<or> (0x2000 \<le> c \<and> c \<le> 0x200A) \<or> c = 0x2028 \<or> c = 0x2029 \<or>
           c = 0x202F \<or> c = 0x205F \<or> c = 0x3000)"

definition is_linebreak :: "nat \<Rightarrow> bool" where
  \<comment> \<open>the line boundaries of \<^verbatim>\<open>str.splitlines\<close>: LF, VT, FF, CR, FS, GS, RS, U+0085,
      U+2028, U+2029\<close>
  "is_linebreak c =
     (if c < 128 then (10 \<le> c \<and> c \<le> 13) \<or> (28 \<le> c \<and> c \<le> 30)
      else c = 0x85 \<or> c = 0x2028 \<or> c = 0x2029)"

text \<open>
  The class \<^verbatim>\<open>\w\<close> of a \<^verbatim>\<open>str\<close> pattern is the underscore and every alphanumeric
  character of the Unicode database of the interpreter, and \<^verbatim>\<open>str.lower\<close> and
  \<^verbatim>\<open>str.upper\<close> follow the case mappings of that database, which map a string to a
  string (one character may become several, and a capital sigma depends on its
  neighbours). The database is not part of the sources: it is a parameter of the
  model, consulted where the answer is not fixed below. On the ASCII code points the
  alphanumeric characters are the digits and the letters, and a string of ASCII
  characters changes case letter by letter. No white-space character is alphanumeric.
\<close>

record unicode_db =
  alnum_tab :: "nat \<Rightarrow> bool"
  lower_tab :: "ustring \<Rightarrow> ustring"
  upper_tab :: "ustring \<Rightarrow> ustring"

definition ascii_alnum :: "nat \<Rightarrow> bool" where
  "ascii_alnum c = ((48 \<le> c \<and> c \<le> 57) \<or> (65 \<le> c \<and> c \<le> 90) \<or> (97 \<le> c \<and> c \<le> 122))"

definition is_alnum :: "unicode_db \<Rightarrow> nat \<Rightarrow> bool" where
  "is_alnum U c = (if c < 128 then ascii_alnum c else \<not> is_space c \<and> alnum_tab U c)"

definition is_word :: "unicode_db \<Rightarrow> nat \<Rightarrow> bool" where
  \<comment> \<open>\<^verbatim>\<open>\w\<close>\<close>
  "is_word U c = (is_alnum U c \<or> c = 95)"

definition is_domain_char :: "unicode_db \<Rightarrow> nat \<Rightarrow> bool" where
  \<comment> \<open>the class \<^verbatim>\<open>[\w\.-]\<close>\<close>
  "is_domain_char U c = (is_word U c \<or> c = 46 \<or> c = 45)"

definition is_ascii :: "ustring \<Rightarrow> bool" where
  "is_ascii s = list_all (\<lambda>c. c < 128) s"

definition ascii_lower :: "nat \<Rightarrow> nat" where
  "ascii_lower c = (if 65 \<le> c \<and> c \<le> 90 then c + 32 else c)"

definition ascii_upper :: "nat \<Rightarrow> nat" where
  "ascii_upper c = (if 97 \<le> c \<and> c \<le> 122 then c - 32 else c)"

definition lower :: "unicode_db \<Rightarrow> ustring \<Rightarrow> ustring" where
  \<comment> \<open>\<^verbatim>\<open>str.lower()\<close>\<close>
  "lower U s = (if is_ascii s then map ascii_lower s else lower_tab U s)"

definition upper :: "unicode_db \<Rightarrow> ustring \<Rightarrow> ustring" where
  \<comment> \<open>\<^verbatim>\<open>str.upper()\<close>\<close>
  "upper U s = (if is_ascii s then map ascii_upper s else upper_tab U s)"

definition strip :: "ustring \<Rightarrow> ustring" where
  \<comment> \<open>\<^verbatim>\<open>str.strip()\<close>: white space removed at both ends\<close>
  "strip s = rev (dropWhile is_space (rev (dropWhile is_space s)))"

definition startswith :: "ustring \<Rightarrow> ustring \<Rightarrow> bool" where
  "startswith s p = (take (length p) s = p)"

definition startswith_any :: "ustring \<Rightarrow> ustring list \<Rightarrow> bool" where
  \<comment> \<open>\<^verbatim>\<open>str.startswith\<close> with a tuple of prefixes\<close>
  "startswith_any s ps = list_ex (startswith s) ps"

text \<open>
  \<^verbatim>\<open>str.splitlines()\<close>: the text is cut at every line boundary, CR LF counting as one,
  and a last line without a boundary is kept unless it is empty. The first argument is
  the line read so far, in reverse.
\<close>

fun splitlines_from :: "ustring \<Rightarrow> ustring \<Rightarrow> ustring list" where
  "splitlines_from cur [] = (if cur = [] then [] else [rev cur])"
| "splitlines_from cur [c] =
     (if is_linebreak c then [rev cur] else [rev (c # cur)])"
| "splitlines_from cur (c # d # cs) =
     (if c = 13 \<and> d = 10 then rev cur # splitlines_from [] cs
      else if is_linebreak c then rev cur # splitlines_from [] (d # cs)
      else splitlines_from (c # cur) (d # cs))"

definition splitlines :: "ustring \<Rightarrow> ustring list" where
  "splitlines s = splitlines_from [] s"

text \<open>
  \<^verbatim>\<open>str.split()\<close> without arguments: the maximal runs of characters that are not
  white space, in order; no empty token.
\<close>

function split_ws :: "ustring \<Rightarrow> ustring list" where
  "split_ws s =
     (let t = dropWhile is_space s in
      if t = [] then []
      else takeWhile (\<lambda>c. \<not> is_space c) t # split_ws (dropWhile (\<lambda>c. \<not> is_space c) t))"
  by pat_completeness auto
termination
proof (relation "measure length")
  show "wf (measure length)" by simp
next
  fix s t :: ustring
  assume t: "t = dropWhile is_space s" and ne: "t \<noteq> []"
  from ne obtain c cs where tc: "t = c # cs" by (cases t) simp_all
  have "dropWhile is_space s \<noteq> []" using t ne by simp
  then have "\<not> is_space (hd (dropWhile is_space s))" by (rule hd_dropWhile)
  then have "\<not> is_space c" using t tc by (metis list.sel(1))
  then have "length (dropWhile (\<lambda>c. \<not> is_space c) t) \<le> length cs"
    using tc by (simp add: length_dropWhile_le)
  also have "\<dots> < length t" using tc by simp
  also have "\<dots> \<le> length s" using t by (simp add: length_dropWhile_le)
  finally show "(dropWhile (\<lambda>c. \<not> is_space c) t, s) \<in> measure length" by simp
qed

declare split_ws.simps [simp del]

section \<open>The three dialect patterns\<close>

text \<open>
  A pattern applied with \<^verbatim>\<open>re.match\<close> is modelled by the function from the subject
  string to the text of group 1, \<open>None\<close> when the pattern does not match.

  \<^verbatim>\<open>HOSTS_PATTERN = ^(?:127\.0\.0\.1|0\.0\.0\.0)\s+([\w\.-]+)\<close>. After one of the two
  addresses, \<^verbatim>\<open>\s+\<close> takes the whole run of white space (giving some of it back could
  only leave a white-space character in front of the group, which the group's class
  excludes), and the greedy group takes the whole run of \<^verbatim>\<open>[\w\.-]\<close> that follows.
  Both runs must be non-empty.
\<close>

definition hosts_match :: "unicode_db \<Rightarrow> ustring \<Rightarrow> ustring option" where
  "hosts_match U line =
     (case (if startswith line (str ''127.0.0.1'')
              then Some (drop (length (str ''127.0.0.1'')) line)
            else if startswith line (str ''0.0.0.0'')
              then Some (drop (length (str ''0.0.0.0'')) line)
            else None) of
        None \<Rightarrow> None
      | Some rest \<Rightarrow>
          if takeWhile is_space rest = [] then None
          else (let g = takeWhile (is_domain_char U) (dropWhile is_space rest) in
                if g = [] then None else Some g))"

text \<open>
  \<^verbatim>\<open>ADGUARD_PATTERN = ^\|\|([\w\.-]+)\^\<close>. After the two bars the greedy group takes the
  whole run of \<^verbatim>\<open>[\w\.-]\<close>, which must be non-empty, and the next character must be the
  caret (a shorter group would be followed by a character of the class, never by the
  caret).
\<close>

definition adguard_match :: "unicode_db \<Rightarrow> ustring \<Rightarrow> ustring option" where
  "adguard_match U line =
     (if startswith line (str ''||'') then
        (let rest = drop (length (str ''||'')) line;
             g = takeWhile (is_domain_char U) rest
         in if g \<noteq> [] \<and> startswith (dropWhile (is_domain_char U) rest) (str ''^'')
            then Some g else None)
      else None)"

text \<open>
  \<^verbatim>\<open>RAW_DOMAIN_PATTERN = ^([\w\.-]+\.[\w]+)$\<close>. The subject matches up to its end when
  it can be cut at some position \<open>i\<close> into a non-empty run of \<^verbatim>\<open>[\w\.-]\<close>, a dot at
  \<open>i\<close>, and a non-empty run of \<^verbatim>\<open>\w\<close>; the backtracking of the first \<^verbatim>\<open>+\<close> tries every
  such position. Without the MULTILINE flag \<^verbatim>\<open>$\<close> also matches just before a line feed
  that ends the subject. Group 1 is the whole matched text.
\<close>

definition raw_domain_cut :: "unicode_db \<Rightarrow> ustring \<Rightarrow> nat \<Rightarrow> bool" where
  "raw_domain_cut U tok i =
     (take i tok \<noteq> [] \<and> list_all (is_domain_char U) (take i tok) \<and>
      tok ! i = 46 \<and>
      drop (Suc i) tok \<noteq> [] \<and> list_all (is_word U) (drop (Suc i) tok))"

definition raw_domain_full :: "unicode_db \<Rightarrow> ustring \<Rightarrow> bool" where
  "raw_domain_full U tok = list_ex (raw_domain_cut U tok) [0..<length tok]"

definition raw_domain_match :: "unicode_db \<Rightarrow> ustring \<Rightarrow> ustring option" where
  "raw_domain_match U tok =
     (if raw_domain_full U tok then Some tok
      else if tok \<noteq> [] \<and> last tok = 10 \<and> raw_domain_full U (butlast tok)
           then Some (butlast tok)
      else None)"

section \<open>\<^verbatim>\<open>parse_blocklist\<close>\<close>

datatype py_error = IndexError | ValueError

definition getitem :: "'a list \<Rightarrow> nat \<Rightarrow> py_error + 'a" where
  \<comment> \<open>\<^verbatim>\<open>xs[i]\<close> for an index that is not negative\<close>
  "getitem xs i = (if i < length xs then Inr (xs ! i) else Inl IndexError)"

type_synonym rule = "ustring \<times> ustring"

text \<open>
  One turn of the loop of \<^verbatim>\<open>parse_blocklist\<close>: the rule that the turn adds to
  \<^verbatim>\<open>rules\<close>, \<open>None\<close> when the turn ends in \<^verbatim>\<open>continue\<close> or adds nothing, and \<open>Inl\<close> when
  it raises.
\<close>

definition parse_line :: "unicode_db \<Rightarrow> ustring \<Rightarrow> py_error + rule option" where
  "parse_line U raw =
     (let line = strip raw in
      if line = [] \<or> startswith_any line [str ''#'', str ''!'', str ''/''] then Inr None
      else case hosts_match U line of
        Some g \<Rightarrow> Inr (Some (str ''full'', lower U g))
      | None \<Rightarrow>
         (case adguard_match U line of
            Some g \<Rightarrow> Inr (Some (str ''domain'', lower U g))
          | None \<Rightarrow>
             (let parts = split_ws line in
              if parts = [] then Inr None
              else case getitem parts 0 of
                Inl e \<Rightarrow> Inl e
              | Inr tok \<Rightarrow>
                 (case raw_domain_match U tok of
                    Some g \<Rightarrow> Inr (Some (str ''domain'', lower U g))
                  | None \<Rightarrow> Inr None))))"

fun parse_lines :: "unicode_db \<Rightarrow> rule set \<Rightarrow> ustring list \<Rightarrow> py_error + rule set" where
  "parse_lines U rules [] = Inr rules"
| "parse_lines U rules (l # ls) =
     (case parse_line U l of
        Inl e \<Rightarrow> Inl e
      | Inr None \<Rightarrow> parse_lines U rules ls
      | Inr (Some r) \<Rightarrow> parse_lines U (insert r rules) ls)"

definition parse_blocklist :: "unicode_db \<Rightarrow> ustring \<Rightarrow> py_error + rule set" where
  "parse_blocklist U content = parse_lines U {} (splitlines content)"

section \<open>The run of \<^verbatim>\<open>main\<close>\<close>

text \<open>
  \<^verbatim>\<open>main\<close> reads the manifest line by line, fetches and parses each source, and keeps
  two variables: the dictionary \<^verbatim>\<open>blocklists\<close> and the set \<^verbatim>\<open>all_rules\<close>. A Python
  dictionary keeps its keys in the order of their first insertion, and an assignment to
  a key that is present replaces the value where it stands: the dictionary is an
  association list with that assignment. The log is the list of the records written.
  The network is a parameter: \<open>fetch url\<close> is the text that \<^verbatim>\<open>fetch_blocklist\<close>
  returns, \<open>None\<close> when it raises \<^verbatim>\<open>RequestException\<close>.
\<close>

fun setitem :: "('k \<times> 'v) list \<Rightarrow> 'k \<Rightarrow> 'v \<Rightarrow> ('k \<times> 'v) list" where
  "setitem [] k v = [(k, v)]"
| "setitem ((k', v') # d) k v = (if k' = k then (k', v) # d else (k', v') # setitem d k v)"

datatype log_level = INFO | WARNING | ERROR

datatype log_event =
    Fetching_list ustring ustring
  | Parsed_rules nat ustring
  | Skipping_invalid_line ustring
  | Failed_to_fetch ustring
  | Created_combined_list nat

fun level :: "log_event \<Rightarrow> log_level" where
  "level (Fetching_list name url) = INFO"
| "level (Parsed_rules n name) = INFO"
| "level (Skipping_invalid_line line) = WARNING"
| "level (Failed_to_fetch url) = ERROR"
| "level (Created_combined_list n) = INFO"

record run_state =
  blocklists :: "(ustring \<times> rule set) list"
  all_rules :: "rule set"
  log :: "log_event list"

definition initial_state :: run_state where
  "initial_state = \<lparr>blocklists = [], all_rules = {}, log = []\<rparr>"

definition split_comma_1 :: "ustring \<Rightarrow> ustring list" where
  \<comment> \<open>\<^verbatim>\<open>line.split(",", 1)\<close>: one cut, at the first comma\<close>
  "split_comma_1 s =
     (if 44 \<in> set s
      then [takeWhile (\<lambda>c. c \<noteq> 44) s,
            tl (dropWhile (\<lambda>c. c \<noteq> 44) s)]
      else [s])"

definition unpack2 :: "'a list \<Rightarrow> py_error + 'a \<times> 'a" where
  \<comment> \<open>the assignment \<^verbatim>\<open>name, url = [...]\<close>\<close>
  "unpack2 xs = (case xs of [a, b] \<Rightarrow> Inr (a, b) | _ \<Rightarrow> Inl ValueError)"

text \<open>Lines 162 to 171: one source is fetched, parsed and stored.\<close>

definition fetch_and_store ::
  "unicode_db \<Rightarrow> (ustring \<Rightarrow> ustring option) \<Rightarrow> run_state \<Rightarrow> ustring \<Rightarrow> ustring
     \<Rightarrow> py_error + run_state" where
  "fetch_and_store U fetch st name url =
     (let st1 = st\<lparr>log := log st @ [Fetching_list name url]\<rparr> in
      case fetch url of
        None \<Rightarrow> Inr (st1\<lparr>log := log st1 @ [Failed_to_fetch url]\<rparr>)
      | Some content \<Rightarrow>
         (case parse_blocklist U content of
            Inl e \<Rightarrow> Inl e
          | Inr rules \<Rightarrow>
              Inr (st1\<lparr>log := log st1 @ [Parsed_rules (card rules) name],
                       blocklists := setitem (blocklists st1) name rules,
                       all_rules := all_rules st1 \<union> rules\<rparr>)))"

text \<open>Lines 152 to 171: one turn of the loop over the manifest.\<close>

definition process_line ::
  "unicode_db \<Rightarrow> (ustring \<Rightarrow> ustring option) \<Rightarrow> run_state \<Rightarrow> ustring
     \<Rightarrow> py_error + run_state" where
  "process_line U fetch st raw =
     (let line = strip raw in
      if line = [] \<or> startswith line (str ''#'') then Inr st
      else case unpack2 (map strip (split_comma_1 line)) of
        Inl ValueError \<Rightarrow> Inr (st\<lparr>log := log st @ [Skipping_invalid_line line]\<rparr>)
      | Inl e \<Rightarrow> Inl e
      | Inr (name, url) \<Rightarrow> fetch_and_store U fetch st name url)"

fun read_manifest ::
  "unicode_db \<Rightarrow> (ustring \<Rightarrow> ustring option) \<Rightarrow> run_state \<Rightarrow> ustring list
     \<Rightarrow> py_error + run_state" where
  "read_manifest U fetch st [] = Inr st"
| "read_manifest U fetch st (l # ls) =
     (case process_line U fetch st l of
        Inl e \<Rightarrow> Inl e
      | Inr st' \<Rightarrow> read_manifest U fetch st' ls)"

text \<open>Lines 173 to 176: the combined list.\<close>

definition add_combined :: "run_state \<Rightarrow> run_state" where
  "add_combined st =
     (if all_rules st \<noteq> {}
      then st\<lparr>blocklists := setitem (blocklists st) (str ''blocklists-all'') (all_rules st),
              log := log st @ [Created_combined_list (card (all_rules st))]\<rparr>
      else st)"

text \<open>
  Lines 178 to 201. The generated module \<^verbatim>\<open>router_common_pb2\<close> is not part of the
  sources; \<^verbatim>\<open>main\<close> names four values of its enumeration \<^verbatim>\<open>Domain.Type\<close>.

  The entries of a site are appended in the order in which the loop
  \<^verbatim>\<open>for rule_type, value in rules\<close> iterates the set of the group. Python does not fix
  that order: it follows the hashes of the elements and the history of the set, and
  the hashes of strings change from one run of the interpreter to the next. The order
  is therefore a parameter of the model: \<open>iter name rules\<close> is the list in which the
  set \<open>rules\<close> of the group \<open>name\<close> is iterated. It is an iteration of the set when it
  lists every element of the set once.

  \<^verbatim>\<open>list.sort\<close> is stable, as \<^const>\<open>sort_key\<close> is, and Python compares strings code
  point by code point, a proper prefix first, as the lexicographic order on lists of
  code points does.
\<close>

datatype domain_type = Plain | Regex | RootDomain | Full

definition rule_type_map :: "ustring \<Rightarrow> domain_type" where
  \<comment> \<open>\<^verbatim>\<open>rule_type_map.get(rule_type, router_common_pb2.Domain.Plain)\<close>\<close>
  "rule_type_map t =
     (if t = str ''domain'' then RootDomain
      else if t = str ''full'' then Full
      else if t = str ''regexp'' then Regex
      else if t = str ''keyword'' then Plain
      else Plain)"

record geosite =
  country_code :: ustring
  domain :: "(domain_type \<times> ustring) list"

definition iterates :: "(ustring \<Rightarrow> rule set \<Rightarrow> rule list) \<Rightarrow> (ustring \<times> rule set) list \<Rightarrow> bool" where
  "iterates iter d =
     list_all (\<lambda>g. distinct (iter (fst g) (snd g)) \<and> set (iter (fst g) (snd g)) = snd g) d"

definition make_site ::
  "unicode_db \<Rightarrow> (ustring \<Rightarrow> rule set \<Rightarrow> rule list) \<Rightarrow> ustring \<times> rule set \<Rightarrow> geosite" where
  "make_site U iter g =
     \<lparr>country_code = upper U (fst g),
      domain = map (\<lambda>r. (rule_type_map (fst r), snd r)) (iter (fst g) (snd g))\<rparr>"

definition geosite_entries ::
  "unicode_db \<Rightarrow> (ustring \<Rightarrow> rule set \<Rightarrow> rule list) \<Rightarrow> (ustring \<times> rule set) list
     \<Rightarrow> geosite list" where
  "geosite_entries U iter d = sort_key country_code (map (make_site U iter) d)"

definition main_run ::
  "unicode_db \<Rightarrow> (ustring \<Rightarrow> ustring option) \<Rightarrow> (ustring \<Rightarrow> rule set \<Rightarrow> rule list)
     \<Rightarrow> ustring list \<Rightarrow> py_error + run_state \<times> geosite list" where
  "main_run U fetch iter manifest =
     (case read_manifest U fetch initial_state manifest of
        Inl e \<Rightarrow> Inl e
      | Inr st \<Rightarrow>
          (let st' = add_combined st in Inr (st', geosite_entries U iter (blocklists st'))))"

section \<open>Notions of the specification\<close>

text \<open>
  The definitions of this section are not translations of the program: they say, in
  the words of the specification, what the theorems below compare the program with.

  The first token of a trimmed line, which starts with a character that is not white
  space: its longest prefix free of white space.
\<close>

definition first_token :: "ustring \<Rightarrow> ustring" where
  "first_token line = takeWhile (\<lambda>c. \<not> is_space c) line"

text \<open>The fields of a string: the string cut at every occurrence of a separator.\<close>

fun fields_from :: "nat \<Rightarrow> ustring \<Rightarrow> ustring \<Rightarrow> ustring list" where
  "fields_from sep cur [] = [rev cur]"
| "fields_from sep cur (c # cs) =
     (if c = sep then rev cur # fields_from sep [] cs
      else fields_from sep (c # cur) cs)"

definition comma_fields :: "ustring \<Rightarrow> ustring list" where
  "comma_fields s = fields_from 44 [] s"

definition dot_fields :: "ustring \<Rightarrow> ustring list" where
  "dot_fields s = fields_from 46 [] s"

text \<open>
  The shape \<^verbatim>\<open>label.tld\<close> in the words of the specification: the token is made of
  two dot-separated labels or more, the last being the final label; a label is a
  non-empty run of word characters, among which hyphens may stand.
\<close>

definition is_label :: "unicode_db \<Rightarrow> ustring \<Rightarrow> bool" where
  "is_label U l =
     (l \<noteq> [] \<and> list_all (\<lambda>c. is_word U c \<or> c = 45) l \<and> list_ex (is_word U) l)"

definition label_tld_shape :: "unicode_db \<Rightarrow> ustring \<Rightarrow> bool" where
  "label_tld_shape U tok = (2 \<le> length (dot_fields tok) \<and> list_all (is_label U) (dot_fields tok))"

text \<open>
  The shape that the raw-domain pattern asks for, told from the last dot of the token:
  the token is made of word characters, dots and hyphens only, it has a dot, the text
  after its last dot is a non-empty run of word characters, and the text before its
  last dot is not empty.
\<close>

definition final_label :: "ustring \<Rightarrow> ustring" where
  "final_label tok = rev (takeWhile (\<lambda>c. c \<noteq> 46) (rev tok))"

definition leading_labels :: "ustring \<Rightarrow> ustring" where
  "leading_labels tok = rev (tl (dropWhile (\<lambda>c. c \<noteq> 46) (rev tok)))"

definition last_dot_shape :: "unicode_db \<Rightarrow> ustring \<Rightarrow> bool" where
  "last_dot_shape U tok =
     (list_all (is_domain_char U) tok \<and> 46 \<in> set tok \<and>
      leading_labels tok \<noteq> [] \<and> final_label tok \<noteq> [] \<and> list_all (is_word U) (final_label tok))"

text \<open>
  The sources of a run: for each manifest line that gives a name and a URL whose fetch
  succeeds, the name and the rule set parsed from the text fetched, in manifest order.
\<close>

definition manifest_entry :: "ustring \<Rightarrow> (ustring \<times> ustring) option" where
  "manifest_entry raw =
     (let line = strip raw in
      if line = [] \<or> startswith line (str ''#'') then None
      else case unpack2 (map strip (split_comma_1 line)) of
        Inl e \<Rightarrow> None
      | Inr p \<Rightarrow> Some p)"

definition parsed_source ::
  "unicode_db \<Rightarrow> (ustring \<Rightarrow> ustring option) \<Rightarrow> ustring \<Rightarrow> (ustring \<times> rule set) option" where
  "parsed_source U fetch raw =
     (case manifest_entry raw of
        None \<Rightarrow> None
      | Some p \<Rightarrow>
         (case fetch (snd p) of
            None \<Rightarrow> None
          | Some content \<Rightarrow>
             (case parse_blocklist U content of
                Inl e \<Rightarrow> None
              | Inr rules \<Rightarrow> Some (fst p, rules))))"

definition parsed_sources ::
  "unicode_db \<Rightarrow> (ustring \<Rightarrow> ustring option) \<Rightarrow> ustring list \<Rightarrow> (ustring \<times> rule set) list" where
  "parsed_sources U fetch manifest = List.map_filter (parsed_source U fetch) manifest"

text \<open>A source stored in the dictionary under its name.\<close>

abbreviation store ::
  "(ustring \<times> rule set) list \<Rightarrow> ustring \<times> rule set \<Rightarrow> (ustring \<times> rule set) list" where
  "store d p \<equiv> setitem d (fst p) (snd p)"

text \<open>The rules that the recognised lines of a list of lines give.\<close>

definition rules_of_lines :: "unicode_db \<Rightarrow> ustring list \<Rightarrow> rule set" where
  "rules_of_lines U ls = {r. \<exists>l \<in> set ls. parse_line U l = Inr (Some r)}"

text \<open>
  Three facts about \<^verbatim>\<open>str.lower\<close> on the runs of word characters, dots and hyphens,
  which the sources do not show, being facts of the Unicode database: lowering a
  lowered run changes nothing; a run that is not empty is not lowered to the empty
  string; and lowering a run brings no white space into it.
\<close>

definition lower_facts :: "unicode_db \<Rightarrow> bool" where
  "lower_facts U =
     ((\<forall>s. list_all (is_domain_char U) s \<longrightarrow> lower U (lower U s) = lower U s) \<and>
      (\<forall>s. list_all (is_domain_char U) s \<and> s \<noteq> [] \<longrightarrow> lower U s \<noteq> []) \<and>
      (\<forall>s. list_all (is_domain_char U) s \<longrightarrow> list_all (\<lambda>c. \<not> is_space c) (lower U s)))"

text \<open>A group of the output without the order of its entries.\<close>

definition unordered :: "geosite \<Rightarrow> ustring \<times> (domain_type \<times> ustring) multiset" where
  "unordered g = (country_code g, mset (domain g))"

text \<open>What a group of the catalog gives to the output, without the order of its entries.\<close>

definition site_contents ::
  "unicode_db \<Rightarrow> ustring \<times> rule set \<Rightarrow> ustring \<times> (domain_type \<times> ustring) multiset" where
  "site_contents U g =
     (upper U (fst g), image_mset (\<lambda>r. (rule_type_map (fst r), snd r)) (mset_set (snd g)))"

section \<open>A database and iteration orders for concrete runs\<close>

text \<open>
  For runs on concrete texts the parameters are given values. The database is that of
  Python on the code points below 256: their alphanumeric characters, the capital and
  the small letters of Latin-1 (the sharp s becomes two letters in upper case, and the
  micro sign and the y with diaeresis leave Latin-1); beyond, this database has no
  alphanumeric character and no case. The sets are iterated in ascending order, or
  in descending order.
\<close>

definition latin1_alnum :: "nat \<Rightarrow> bool" where
  "latin1_alnum c =
     (c = 0xAA \<or> c = 0xB2 \<or> c = 0xB3 \<or> c = 0xB5 \<or> c = 0xB9 \<or> c = 0xBA \<or>
      (0xBC \<le> c \<and> c \<le> 0xBE) \<or> (0xC0 \<le> c \<and> c \<le> 0xD6) \<or> (0xD8 \<le> c \<and> c \<le> 0xF6) \<or>
      (0xF8 \<le> c \<and> c \<le> 0xFF))"

definition latin1_lower :: "nat \<Rightarrow> nat" where
  "latin1_lower c =
     (if (65 \<le> c \<and> c \<le> 90) \<or> (0xC0 \<le> c \<and> c \<le> 0xD6) \<or> (0xD8 \<le> c \<and> c \<le> 0xDE)
      then c + 32 else c)"

definition latin1_upper :: "nat \<Rightarrow> ustring" where
  "latin1_upper c =
     (if (97 \<le> c \<and> c \<le> 122) \<or> (0xE0 \<le> c \<and> c \<le> 0xF6) \<or> (0xF8 \<le> c \<and> c \<le> 0xFE)
      then [c - 32]
      else if c = 0xDF then str ''SS''
      else if c = 0xFF then [0x178]
      else if c = 0xB5 then [0x39C]
      else [c])"

definition latin1_db :: unicode_db where
  "latin1_db =
     \<lparr>alnum_tab = latin1_alnum,
      lower_tab = map latin1_lower,
      upper_tab = (\<lambda>s. concat (map latin1_upper s))\<rparr>"

definition sorted_iteration :: "ustring \<Rightarrow> rule set \<Rightarrow> rule list" where
  "sorted_iteration name rules = sorted_list_of_set rules"

definition reverse_iteration :: "ustring \<Rightarrow> rule set \<Rightarrow> rule list" where
  "reverse_iteration name rules = rev (sorted_list_of_set rules)"

section \<open>Properties of the parser\<close>

subsection \<open>Characters and labels\<close>

lemma code_points: "str ''.-_^,'' = [46, 45, 95, 94, 44]"
  by (simp add: str_def)

lemma is_word_not_dot: "is_word U c \<Longrightarrow> c \<noteq> 46"
  by (auto simp: is_word_def is_alnum_def ascii_alnum_def split: if_splits)

lemma is_domain_char_not_space: "is_domain_char U c \<Longrightarrow> \<not> is_space c"
  by (auto simp: is_domain_char_def is_word_def is_alnum_def ascii_alnum_def is_space_def
      split: if_splits)

lemma is_linebreak_is_space: "is_linebreak c \<Longrightarrow> is_space c"
  by (auto simp: is_linebreak_def is_space_def split: if_splits)

lemma not_domain_char_caret: "\<not> is_domain_char U 94"
  by (simp add: is_domain_char_def is_word_def is_alnum_def ascii_alnum_def)

lemma strip_no_space: "list_all (\<lambda>c. \<not> is_space c) s \<Longrightarrow> strip s = s"
proof -
  assume a: "list_all (\<lambda>c. \<not> is_space c) s"
  have d: "\<And>t. list_all (\<lambda>c. \<not> is_space c) t \<Longrightarrow> dropWhile is_space t = t"
    by (case_tac t) simp_all
  have "list_all (\<lambda>c. \<not> is_space c) (rev s)" using a by (simp add: list_all_iff)
  then show ?thesis using a by (simp add: strip_def d)
qed

lemma split_label:
  assumes "46 \<notin> set b"
  shows "final_label (a @ 46 # b) = b"
    and "leading_labels (a @ 46 # b) = a"
proof -
  let ?dot = "46 :: nat"
  have "takeWhile (\<lambda>c. c \<noteq> ?dot) (rev b @ ?dot # rev a) = rev b"
    using assms by (subst takeWhile_append2) auto
  moreover have "dropWhile (\<lambda>c. c \<noteq> ?dot) (rev b @ ?dot # rev a) = ?dot # rev a"
    using assms by (subst dropWhile_append2) auto
  ultimately show "final_label (a @ ?dot # b) = b" and "leading_labels (a @ ?dot # b) = a"
    by (simp_all add: final_label_def leading_labels_def)
qed

lemma join_label:
  assumes "46 \<in> set tok"
  shows "tok = leading_labels tok @ 46 # final_label tok"
proof -
  let ?P = "\<lambda>c::nat. c \<noteq> 46"
  have ne: "dropWhile ?P (rev tok) \<noteq> []" using assms by auto
  then have "\<not> ?P (hd (dropWhile ?P (rev tok)))" by (rule hd_dropWhile)
  with ne have d: "dropWhile ?P (rev tok) = 46 # tl (dropWhile ?P (rev tok))"
    by (cases "dropWhile ?P (rev tok)") simp_all
  have "rev tok = takeWhile ?P (rev tok) @ dropWhile ?P (rev tok)" by simp
  then have "rev tok = takeWhile ?P (rev tok) @ 46 # tl (dropWhile ?P (rev tok))"
    using d by simp
  then have "rev (rev tok)
      = rev (takeWhile ?P (rev tok) @ 46 # tl (dropWhile ?P (rev tok)))"
    by simp
  then show ?thesis by (simp add: final_label_def leading_labels_def)
qed

lemma raw_domain_full_iff: "raw_domain_full U tok \<longleftrightarrow> last_dot_shape U tok"
proof
  assume "raw_domain_full U tok"
  then obtain i where i: "i < length tok" and cut: "raw_domain_cut U tok i"
    by (auto simp: raw_domain_full_def list_ex_iff)
  let ?a = "take i tok" and ?b = "drop (Suc i) tok"
  have tok: "tok = ?a @ 46 # ?b"
    using i cut id_take_nth_drop [of i tok] by (simp add: raw_domain_cut_def)
  have nodot: "46 \<notin> set ?b"
    using cut is_word_not_dot by (auto simp: raw_domain_cut_def list_all_iff)
  have fl: "final_label tok = ?b" and ll: "leading_labels tok = ?a"
    using split_label [OF nodot, of ?a] tok by simp_all
  have "list_all (is_domain_char U) (?a @ 46 # ?b)"
    using cut by (auto simp: raw_domain_cut_def list_all_iff is_domain_char_def)
  then have "list_all (is_domain_char U) tok" using tok by simp
  moreover have "46 \<in> set tok" using tok by (metis in_set_conv_decomp)
  ultimately show "last_dot_shape U tok"
    using cut fl ll by (simp add: last_dot_shape_def raw_domain_cut_def)
next
  assume s: "last_dot_shape U tok"
  let ?a = "leading_labels tok" and ?b = "final_label tok"
  have tok: "tok = ?a @ 46 # ?b"
    using s join_label by (simp add: last_dot_shape_def)
  let ?i = "length ?a"
  have i: "?i < length tok" by (subst (2) tok) simp
  have t: "take ?i tok = ?a" by (subst (2) tok) simp
  have n: "tok ! ?i = 46" by (subst tok) simp
  have d: "drop (Suc ?i) tok = ?b" by (subst (2) tok) simp
  have "list_all (is_domain_char U) ?a" using s t
    by (metis append_take_drop_id last_dot_shape_def list_all_append)
  then have "raw_domain_cut U tok ?i"
    using s t n d by (simp add: raw_domain_cut_def last_dot_shape_def)
  with i show "raw_domain_full U tok"
    by (auto simp: raw_domain_full_def list_ex_iff)
qed

subsection \<open>The patterns\<close>

lemma hosts_match_Some:
  "hosts_match U line = Some g \<Longrightarrow> g \<noteq> [] \<and> list_all (is_domain_char U) g"
  by (auto simp: hosts_match_def Let_def list_all_iff split: if_splits option.splits
      dest: set_takeWhileD)

lemma adguard_match_Some:
  "adguard_match U line = Some g \<Longrightarrow> g \<noteq> [] \<and> list_all (is_domain_char U) g"
  by (auto simp: adguard_match_def Let_def list_all_iff split: if_splits dest: set_takeWhileD)

lemma last_dot_shape_domain:
  "last_dot_shape U tok \<Longrightarrow> tok \<noteq> [] \<and> list_all (is_domain_char U) tok"
  by (auto simp: last_dot_shape_def)

lemma raw_domain_match_Some:
  assumes "raw_domain_match U tok = Some g"
  shows "g \<noteq> [] \<and> list_all (is_domain_char U) g"
proof -
  have "last_dot_shape U g"
    using assms by (auto simp: raw_domain_match_def raw_domain_full_iff split: if_splits)
  then show ?thesis by (rule last_dot_shape_domain)
qed

lemma raw_domain_match_no_space:
  assumes "list_all (\<lambda>c. \<not> is_space c) tok"
  shows "raw_domain_match U tok = (if last_dot_shape U tok then Some tok else None)"
proof -
  have "\<not> (tok \<noteq> [] \<and> last tok = 10)"
  proof
    assume a: "tok \<noteq> [] \<and> last tok = 10"
    then have "last tok \<in> set tok" using last_in_set by blast
    then have "\<not> is_space (last tok)" using assms by (simp add: list_all_iff)
    then show False using a by (simp add: is_space_def)
  qed
  then show ?thesis by (auto simp: raw_domain_match_def raw_domain_full_iff)
qed

text \<open>
  The three matchers against the languages of the three expressions: the text matched
  is the prefix, the greedy runs in full, and group 1 the run of \<^verbatim>\<open>[\w\.-]\<close>.
\<close>

lemma run_then_rest:
  assumes "list_all P ws" and "t = [] \<or> \<not> P (hd t)"
  shows "takeWhile P (ws @ t) = ws" and "dropWhile P (ws @ t) = t"
proof -
  have a: "\<And>x. x \<in> set ws \<Longrightarrow> P x" using assms(1) by (simp add: list_all_iff)
  have t: "takeWhile P t = []" "dropWhile P t = t" using assms(2) by (cases t; simp)+
  show "takeWhile P (ws @ t) = ws" using a t by (simp add: takeWhile_append2)
  show "dropWhile P (ws @ t) = t" using a t by (simp add: dropWhile_append2)
qed

lemma startswith_append: "startswith s p \<longleftrightarrow> (\<exists>r. s = p @ r)"
proof
  assume "startswith s p"
  then have "s = p @ drop (length p) s"
    by (metis append_take_drop_id startswith_def)
  then show "\<exists>r. s = p @ r" ..
next
  assume "\<exists>r. s = p @ r"
  then show "startswith s p" by (auto simp: startswith_def)
qed

lemma hosts_match_iff:
  "hosts_match U line = Some g \<longleftrightarrow>
     (\<exists>p ws rest. (p = str ''127.0.0.1'' \<or> p = str ''0.0.0.0'') \<and> line = p @ ws @ g @ rest \<and>
        ws \<noteq> [] \<and> list_all is_space ws \<and> g \<noteq> [] \<and> list_all (is_domain_char U) g \<and>
        (rest = [] \<or> \<not> is_domain_char U (hd rest)))"
  (is "?L \<longleftrightarrow> ?R")
proof
  assume L: ?L
  define p where "p = (if startswith line (str ''127.0.0.1'') then str ''127.0.0.1''
    else str ''0.0.0.0'')"
  define r where "r = drop (length p) line"
  have sw: "startswith line p"
    using L by (auto simp: hosts_match_def p_def split: if_splits)
  then have line: "line = p @ r"
    unfolding r_def by (metis append_take_drop_id startswith_def)
  let ?ws = "takeWhile is_space r"
  let ?t = "dropWhile is_space r"
  let ?rest = "dropWhile (is_domain_char U) ?t"
  have g: "g = takeWhile (is_domain_char U) ?t" and ws: "?ws \<noteq> []" and gne: "g \<noteq> []"
    using L by (auto simp: hosts_match_def p_def r_def Let_def split: if_splits)
  have "r = ?ws @ g @ ?rest" using g by simp
  then have 1: "line = p @ ?ws @ g @ ?rest" using line by simp
  have 2: "list_all is_space ?ws" by (auto simp: list_all_iff dest: set_takeWhileD)
  have 3: "list_all (is_domain_char U) g"
    using g by (auto simp: list_all_iff dest: set_takeWhileD)
  have 4: "?rest = [] \<or> \<not> is_domain_char U (hd ?rest)" using hd_dropWhile by blast
  have 5: "p = str ''127.0.0.1'' \<or> p = str ''0.0.0.0''" by (simp add: p_def)
  show ?R using 1 2 3 4 5 ws gne by blast
next
  assume ?R
  then obtain p ws rest where p: "p = str ''127.0.0.1'' \<or> p = str ''0.0.0.0''"
    and line: "line = p @ ws @ g @ rest" and ws: "ws \<noteq> []" "list_all is_space ws"
    and g: "g \<noteq> []" "list_all (is_domain_char U) g"
    and rest: "rest = [] \<or> \<not> is_domain_char U (hd rest)"
    by blast
  have "is_domain_char U (hd g)" using g by (cases g) simp_all
  then have "\<not> is_space (hd (g @ rest))" using g(1) is_domain_char_not_space by simp
  then have a: "g @ rest = [] \<or> \<not> is_space (hd (g @ rest))" by simp
  have tw: "takeWhile is_space (ws @ g @ rest) = ws"
    and dw: "dropWhile is_space (ws @ g @ rest) = g @ rest"
    using run_then_rest [OF ws(2) a] by simp_all
  have tg: "takeWhile (is_domain_char U) (g @ rest) = g"
    using run_then_rest(1) [OF g(2) rest] .
  from p show ?L
  proof
    assume "p = str ''127.0.0.1''"
    then show ?thesis using line tw dw tg ws(1) g(1)
      by (simp add: hosts_match_def startswith_def Let_def str_def)
  next
    assume "p = str ''0.0.0.0''"
    then show ?thesis using line tw dw tg ws(1) g(1)
      by (simp add: hosts_match_def startswith_def Let_def str_def)
  qed
qed

lemma adguard_match_iff:
  "adguard_match U line = Some g \<longleftrightarrow>
     (\<exists>rest. line = str ''||'' @ g @ 94 # rest \<and> g \<noteq> [] \<and>
        list_all (is_domain_char U) g)"
  (is "?L \<longleftrightarrow> ?R")
proof
  assume L: ?L
  define r where "r = drop (length (str ''||'')) line"
  have "startswith line (str ''||'')"
    using L by (auto simp: adguard_match_def split: if_splits)
  then have line: "line = str ''||'' @ r"
    unfolding r_def by (metis append_take_drop_id startswith_def)
  let ?t = "dropWhile (is_domain_char U) r"
  have g: "g = takeWhile (is_domain_char U) r" and gne: "g \<noteq> []"
    and c: "startswith ?t (str ''^'')"
    using L by (auto simp: adguard_match_def r_def Let_def split: if_splits)
  from c obtain rest where t: "?t = 94 # rest"
    by (auto simp: startswith_append str_def)
  have "r = g @ ?t" using g by simp
  then have "line = str ''||'' @ g @ 94 # rest" using line t by simp
  moreover have "list_all (is_domain_char U) g"
    using g by (auto simp: list_all_iff dest: set_takeWhileD)
  ultimately show ?R using gne by blast
next
  assume ?R
  then obtain rest where line: "line = str ''||'' @ g @ 94 # rest"
    and g: "g \<noteq> []" "list_all (is_domain_char U) g" by blast
  let ?t = "94 # rest"
  have a: "?t = [] \<or> \<not> is_domain_char U (hd ?t)" by (simp add: not_domain_char_caret)
  have "takeWhile (is_domain_char U) (g @ ?t) = g"
    and "dropWhile (is_domain_char U) (g @ ?t) = ?t"
    using run_then_rest [OF g(2) a] by simp_all
  then show ?L using line g(1)
    by (simp add: adguard_match_def startswith_def Let_def str_def)
qed

lemma raw_domain_full_regex:
  "raw_domain_full U tok \<longleftrightarrow>
     (\<exists>a b. tok = a @ 46 # b \<and> a \<noteq> [] \<and> list_all (is_domain_char U) a \<and>
        b \<noteq> [] \<and> list_all (is_word U) b)"
  (is "?L \<longleftrightarrow> ?R")
proof
  assume ?L
  then obtain i where i: "i < length tok" and cut: "raw_domain_cut U tok i"
    by (auto simp: raw_domain_full_def list_ex_iff)
  have "tok = take i tok @ 46 # drop (Suc i) tok"
    using i cut id_take_nth_drop [of i tok] by (simp add: raw_domain_cut_def)
  then show ?R using cut unfolding raw_domain_cut_def by blast
next
  assume ?R
  then obtain a b where tok: "tok = a @ 46 # b"
    and a: "a \<noteq> []" "list_all (is_domain_char U) a"
    and b: "b \<noteq> []" "list_all (is_word U) b" by blast
  have "raw_domain_cut U tok (length a)" using tok a b by (simp add: raw_domain_cut_def)
  moreover have "length a < length tok" using tok by simp
  ultimately show ?L by (auto simp: raw_domain_full_def list_ex_iff)
qed

text \<open>
  The two shapes on some tokens. The pattern lets dots and hyphens stand anywhere
  before the last dot, so it accepts \<^verbatim>\<open>..com\<close>, which has no labels; it takes no
  hyphen in the final label.
\<close>

lemma shapes_on_tokens:
  "last_dot_shape U (str ''plain-domain.org'')" "label_tld_shape U (str ''plain-domain.org'')"
  "last_dot_shape U (str ''a.b.c'')" "label_tld_shape U (str ''a.b.c'')"
  "last_dot_shape U (str ''..com'')" "\<not> label_tld_shape U (str ''..com'')"
  "last_dot_shape U (str ''-.x'')" "\<not> label_tld_shape U (str ''-.x'')"
  "\<not> last_dot_shape U (str ''a.b-c'')" "label_tld_shape U (str ''a.b-c'')"
  "\<not> last_dot_shape U (str ''.com'')" "\<not> label_tld_shape U (str ''.com'')"
  "\<not> last_dot_shape U (str ''localhost'')" "\<not> label_tld_shape U (str ''localhost'')"
  "\<not> last_dot_shape U (str ''http://example.com/path'')"
  "\<not> label_tld_shape U (str ''http://example.com/path'')"
  by code_simp+

subsection \<open>Trimming and tokens\<close>

lemma strip_hd_not_space: "strip s \<noteq> [] \<Longrightarrow> \<not> is_space (hd (strip s))"
proof -
  assume ne: "strip s \<noteq> []"
  let ?t = "dropWhile is_space s"
  have t: "?t \<noteq> []" using ne by (cases "dropWhile is_space s") (simp_all add: strip_def)
  then have h: "\<not> is_space (hd ?t)" by (rule hd_dropWhile)
  have "rev ?t = takeWhile is_space (rev ?t) @ dropWhile is_space (rev ?t)" by simp
  then have "?t = strip s @ rev (takeWhile is_space (rev ?t))"
    by (metis rev_append rev_rev_ident strip_def)
  then have "hd ?t = hd (strip s)" using ne by (metis hd_append2)
  then show ?thesis using h by simp
qed

lemma strip_idem: "strip (strip s) = strip s"
proof (cases "strip s = []")
  case True
  have "strip [] = []" by (simp add: strip_def)
  then show ?thesis using True by simp
next
  case False
  then have h: "\<not> is_space (hd (strip s))" by (rule strip_hd_not_space)
  have d: "dropWhile is_space (strip s) = strip s"
    using False h by (cases "strip s") simp_all
  let ?u = "dropWhile is_space (rev (dropWhile is_space s))"
  have r: "rev (strip s) = ?u" by (simp add: strip_def)
  have "?u \<noteq> []" using False r by (metis rev_is_Nil_conv)
  then have "\<not> is_space (hd ?u)" by (rule hd_dropWhile)
  then have "dropWhile is_space ?u = ?u" by (cases ?u) simp_all
  then have "dropWhile is_space (rev (strip s)) = rev (strip s)" using r by simp
  then show ?thesis using d by (simp add: strip_def [of "strip s"])
qed

lemma split_ws_first:
  assumes "s \<noteq> []" and "\<not> is_space (hd s)"
  shows "split_ws s = first_token s # split_ws (dropWhile (\<lambda>c. \<not> is_space c) s)"
proof -
  have "dropWhile is_space s = s" using assms by (cases s) simp_all
  then show ?thesis using assms by (subst split_ws.simps) (simp add: first_token_def Let_def)
qed

lemma first_token_no_space: "list_all (\<lambda>c. \<not> is_space c) (first_token s)"
  by (auto simp: first_token_def list_all_iff dest: set_takeWhileD)

subsection \<open>One line\<close>

lemma parse_line_fallback:
  assumes "strip raw \<noteq> []"
    and "\<not> startswith_any (strip raw) [str ''#'', str ''!'', str ''/'']"
    and "hosts_match U (strip raw) = None" and "adguard_match U (strip raw) = None"
  shows "parse_line U raw =
    Inr (if last_dot_shape U (first_token (strip raw))
         then Some (str ''domain'', lower U (first_token (strip raw))) else None)"
proof -
  let ?line = "strip raw"
  have sp: "split_ws ?line = first_token ?line # split_ws (dropWhile (\<lambda>c. \<not> is_space c) ?line)"
    using assms(1) strip_hd_not_space by (intro split_ws_first) simp_all
  have rm: "raw_domain_match U (first_token ?line) =
      (if last_dot_shape U (first_token ?line) then Some (first_token ?line) else None)"
    by (rule raw_domain_match_no_space) (rule first_token_no_space)
  show ?thesis
    using assms by (simp add: parse_line_def Let_def sp getitem_def rm)
qed

lemma parse_line_Inr: "\<exists>x. parse_line U raw = Inr x"
  by (auto simp: parse_line_def Let_def getitem_def split: option.splits sum.splits)

lemma parse_line_Some:
  assumes "parse_line U raw = Inr (Some r)"
  shows "(fst r = str ''full'' \<or> fst r = str ''domain'') \<and>
         (\<exists>g. snd r = lower U g \<and> g \<noteq> [] \<and> list_all (is_domain_char U) g)"
  using assms
  by (auto simp: parse_line_def Let_def getitem_def
      split: if_splits option.splits sum.splits
      dest!: hosts_match_Some adguard_match_Some raw_domain_match_Some)

text \<open>The group of a rule is cut out of its line, and a line out of the text.\<close>

lemma set_strip: "set (strip s) \<subseteq> set s"
  by (auto simp: strip_def dest!: set_dropWhileD)

lemma hosts_match_sub: "hosts_match U line = Some g \<Longrightarrow> set g \<subseteq> set line"
  by (auto simp: hosts_match_def Let_def split: if_splits
      dest!: set_takeWhileD set_dropWhileD in_set_dropD)

lemma adguard_match_sub: "adguard_match U line = Some g \<Longrightarrow> set g \<subseteq> set line"
  by (auto simp: adguard_match_def Let_def split: if_splits dest!: set_takeWhileD in_set_dropD)

lemma raw_domain_match_sub: "raw_domain_match U tok = Some g \<Longrightarrow> set g \<subseteq> set tok"
  by (auto simp: raw_domain_match_def split: if_splits dest: in_set_butlastD)

lemma split_ws_sub: "split_ws s \<noteq> [] \<Longrightarrow> set (split_ws s ! 0) \<subseteq> set s"
  by (subst (asm) split_ws.simps, subst split_ws.simps)
    (auto simp: Let_def split: if_splits dest!: set_takeWhileD set_dropWhileD)

lemma parse_line_sub:
  assumes "parse_line U raw = Inr (Some r)"
  shows "\<exists>g. snd r = lower U g \<and> g \<noteq> [] \<and> list_all (is_domain_char U) g \<and> set g \<subseteq> set raw"
proof -
  let ?line = "strip raw"
  have l: "set ?line \<subseteq> set raw" by (rule set_strip)
  consider g where "hosts_match U ?line = Some g" "snd r = lower U g"
    | g where "adguard_match U ?line = Some g" "snd r = lower U g"
    | g where "split_ws ?line \<noteq> []" "raw_domain_match U (split_ws ?line ! 0) = Some g"
        "snd r = lower U g"
    using assms
    by (auto simp: parse_line_def Let_def getitem_def split: if_splits option.splits)
  then show ?thesis
  proof cases
    case 1
    then show ?thesis using hosts_match_Some [of U ?line g] hosts_match_sub [of U ?line g] l
      by blast
  next
    case 2
    then show ?thesis using adguard_match_Some [of U ?line g] adguard_match_sub [of U ?line g] l
      by blast
  next
    case 3
    have "set g \<subseteq> set (split_ws ?line ! 0)" using 3(2) by (rule raw_domain_match_sub)
    also have "\<dots> \<subseteq> set ?line" using 3(1) by (rule split_ws_sub)
    finally have "set g \<subseteq> set raw" using l by blast
    then show ?thesis using 3 raw_domain_match_Some [of U "split_ws ?line ! 0" g] by blast
  qed
qed

lemma splitlines_from_sub:
  "l \<in> set (splitlines_from cur s) \<Longrightarrow> set l \<subseteq> set cur \<union> set s"
  by (induction cur s rule: splitlines_from.induct) (auto split: if_splits)

lemma splitlines_sub: "l \<in> set (splitlines content) \<Longrightarrow> set l \<subseteq> set content"
  using splitlines_from_sub [of l "[]" content] by (simp add: splitlines_def)

text \<open>Lowering a run of ASCII word characters, dots and hyphens.\<close>

lemma lower_ascii_domain:
  assumes "is_ascii g" and "list_all (is_domain_char U) g"
  shows "lower U (lower U g) = lower U g" and "list_all (\<lambda>c. \<not> is_space c) (lower U g)"
proof -
  have lg: "lower U g = map ascii_lower g" using assms(1) by (simp add: lower_def)
  have "is_ascii (map ascii_lower g)"
    using assms(1) by (auto simp: is_ascii_def list_all_iff ascii_lower_def)
  then have "lower U (map ascii_lower g) = map ascii_lower (map ascii_lower g)"
    by (simp add: lower_def)
  also have "\<dots> = map ascii_lower g" by (simp add: ascii_lower_def)
  finally show "lower U (lower U g) = lower U g" using lg by simp
  have "\<And>c. c < 128 \<Longrightarrow> is_domain_char U c \<Longrightarrow> \<not> is_space (ascii_lower c)"
    by (auto simp: is_domain_char_def is_word_def is_alnum_def ascii_alnum_def ascii_lower_def
        is_space_def split: if_splits)
  then show "list_all (\<lambda>c. \<not> is_space c) (lower U g)"
    using assms lg by (auto simp: is_ascii_def list_all_iff)
qed

subsection \<open>The loop over the lines\<close>

lemma parse_lines_eq: "parse_lines U rules ls = Inr (rules \<union> rules_of_lines U ls)"
proof (induction ls arbitrary: rules)
  case Nil
  show ?case by (simp add: rules_of_lines_def)
next
  case (Cons l ls)
  obtain x where x: "parse_line U l = Inr x" using parse_line_Inr by blast
  show ?case
  proof (cases x)
    case None
    then show ?thesis using x Cons.IH [of rules] by (auto simp: rules_of_lines_def)
  next
    case (Some r)
    then show ?thesis using x Cons.IH [of "insert r rules"] by (auto simp: rules_of_lines_def)
  qed
qed

lemma parse_blocklist_eq:
  "parse_blocklist U content = Inr (rules_of_lines U (splitlines content))"
  by (simp add: parse_blocklist_def parse_lines_eq)

lemma finite_rules_of_lines: "finite (rules_of_lines U ls)"
proof -
  have "rules_of_lines U ls
      \<subseteq> (\<lambda>l. case parse_line U l of Inr (Some r) \<Rightarrow> r | _ \<Rightarrow> undefined) ` set ls"
    by (force simp: rules_of_lines_def image_iff)
  then show ?thesis by (rule finite_subset) simp
qed

lemma card_rules_of_lines: "card (rules_of_lines U ls) \<le> length (remdups ls)"
proof -
  let ?f = "\<lambda>l. case parse_line U l of Inr (Some r) \<Rightarrow> r | _ \<Rightarrow> undefined"
  have "rules_of_lines U ls \<subseteq> ?f ` set ls"
    by (force simp: rules_of_lines_def image_iff)
  then have "card (rules_of_lines U ls) \<le> card (?f ` set ls)"
    by (intro card_mono) simp_all
  also have "\<dots> \<le> card (set ls)" by (rule card_image_le) simp
  also have "\<dots> = length (remdups ls)" by (simp add: length_remdups_card_conv)
  finally show ?thesis .
qed

subsection \<open>The database of the concrete runs\<close>

lemma lower_latin1: "lower latin1_db s = map latin1_lower s"
proof (cases "is_ascii s")
  case True
  then have "map ascii_lower s = map latin1_lower s"
    by (auto simp: is_ascii_def list_all_iff ascii_lower_def latin1_lower_def)
  then show ?thesis using True by (simp add: lower_def)
next
  case False
  then show ?thesis by (simp add: lower_def latin1_db_def)
qed

lemma latin1_lower_idem: "latin1_lower (latin1_lower c) = latin1_lower c"
  by (auto simp: latin1_lower_def)

lemma latin1_lower_not_space:
  "is_domain_char latin1_db c \<Longrightarrow> \<not> is_space (latin1_lower c)"
  by (auto simp: is_domain_char_def is_word_def is_alnum_def ascii_alnum_def latin1_db_def
      latin1_alnum_def latin1_lower_def is_space_def split: if_splits)

lemma lower_facts_latin1: "lower_facts latin1_db"
  unfolding lower_facts_def
proof (intro conjI allI impI)
  fix s
  show "lower latin1_db (lower latin1_db s) = lower latin1_db s"
    by (simp add: lower_latin1 latin1_lower_idem)
next
  fix s :: ustring
  assume "list_all (is_domain_char latin1_db) s \<and> s \<noteq> []"
  then show "lower latin1_db s \<noteq> []" by (simp add: lower_latin1)
next
  fix s
  assume "list_all (is_domain_char latin1_db) s"
  then show "list_all (\<lambda>c. \<not> is_space c) (lower latin1_db s)"
    by (simp add: lower_latin1 list_all_iff latin1_lower_not_space)
qed

text \<open>
  The program on text that is not ASCII: the e with acute accent is a word character,
  its capital is lowered to it and it is raised to its capital; U+0085 ends a line and
  U+00A0 is trimmed.
\<close>

lemma beyond_ascii:
  "parse_line latin1_db (str ''caf'' @ [0xE9] @ str ''.com'')
     = Inr (Some (str ''domain'', str ''caf'' @ [0xE9] @ str ''.com''))"
  "parse_line latin1_db (str ''0.0.0.0 CAF'' @ [0xC9] @ str ''.com'')
     = Inr (Some (str ''full'', str ''caf'' @ [0xE9] @ str ''.com''))"
  "upper latin1_db [0xE9] = [0xC9]"
  "splitlines (str ''a.com'' @ [0x85] @ str ''b.com'') = [str ''a.com'', str ''b.com'']"
  "strip ([0xA0] @ str ''a.com'' @ [0xA0]) = str ''a.com''"
  by code_simp+

subsection \<open>The claims on single lines\<close>

text \<open>
  Claim C2. A line that is empty after trimming, or whose trimmed form starts with
  \<^verbatim>\<open>#\<close>, \<^verbatim>\<open>!\<close> or \<^verbatim>\<open>/\<close>, gives no rule. Any other line is tried against the hosts
  pattern, then the ad-blocking pattern, then the raw-domain pattern on its first token,
  and the first pattern that matches decides the rule. The type names \<^verbatim>\<open>full\<close> and
  \<^verbatim>\<open>domain\<close> are written out as \<open>Full\<close> and \<open>RootDomain\<close>. The line
  \<^verbatim>\<open>0.0.0.0 ads.example.com\<close> gives the full rule for \<^verbatim>\<open>ads.example.com\<close>, although the
  raw-domain pattern matches its first token too; \<^verbatim>\<open>||tracker.example.net^\<close> and
  \<^verbatim>\<open>plain-domain.org\<close> give domain rules; \<^verbatim>\<open>http://example.com/path\<close> gives no rule.
\<close>

theorem classify_priority:
  "(strip raw = [] \<or> startswith_any (strip raw) [str ''#'', str ''!'', str ''/'']
      \<longrightarrow> parse_line U raw = Inr None)
   \<and> (strip raw \<noteq> [] \<and> \<not> startswith_any (strip raw) [str ''#'', str ''!'', str ''/''] \<longrightarrow>
        parse_line U raw =
          Inr (case hosts_match U (strip raw) of
                 Some g \<Rightarrow> Some (str ''full'', lower U g)
               | None \<Rightarrow>
                  (case adguard_match U (strip raw) of
                     Some g \<Rightarrow> Some (str ''domain'', lower U g)
                   | None \<Rightarrow>
                      (case raw_domain_match U (first_token (strip raw)) of
                         Some g \<Rightarrow> Some (str ''domain'', lower U g)
                       | None \<Rightarrow> None))))
   \<and> rule_type_map (str ''full'') = Full \<and> rule_type_map (str ''domain'') = RootDomain
   \<and> parse_line U (str ''0.0.0.0 ads.example.com'')
       = Inr (Some (str ''full'', str ''ads.example.com''))
   \<and> raw_domain_match U (first_token (str ''0.0.0.0 ads.example.com'')) = Some (str ''0.0.0.0'')
   \<and> parse_line U (str ''||tracker.example.net^'')
       = Inr (Some (str ''domain'', str ''tracker.example.net''))
   \<and> parse_line U (str ''plain-domain.org'') = Inr (Some (str ''domain'', str ''plain-domain.org''))
   \<and> parse_line U (str ''http://example.com/path'') = Inr None"
proof -
  have blank: "strip raw = [] \<or> startswith_any (strip raw) [str ''#'', str ''!'', str ''/''] \<longrightarrow>
      parse_line U raw = Inr None"
    by (auto simp: parse_line_def Let_def)
  have order: "strip raw \<noteq> [] \<and> \<not> startswith_any (strip raw) [str ''#'', str ''!'', str ''/''] \<longrightarrow>
        parse_line U raw =
          Inr (case hosts_match U (strip raw) of
                 Some g \<Rightarrow> Some (str ''full'', lower U g)
               | None \<Rightarrow>
                  (case adguard_match U (strip raw) of
                     Some g \<Rightarrow> Some (str ''domain'', lower U g)
                   | None \<Rightarrow>
                      (case raw_domain_match U (first_token (strip raw)) of
                         Some g \<Rightarrow> Some (str ''domain'', lower U g)
                       | None \<Rightarrow> None)))"
  proof (intro impI, elim conjE)
    assume ne: "strip raw \<noteq> []"
      and nc: "\<not> startswith_any (strip raw) [str ''#'', str ''!'', str ''/'']"
    have sp: "split_ws (strip raw) =
        first_token (strip raw) # split_ws (dropWhile (\<lambda>c. \<not> is_space c) (strip raw))"
      using ne strip_hd_not_space by (intro split_ws_first) simp_all
    show "parse_line U raw =
          Inr (case hosts_match U (strip raw) of
                 Some g \<Rightarrow> Some (str ''full'', lower U g)
               | None \<Rightarrow>
                  (case adguard_match U (strip raw) of
                     Some g \<Rightarrow> Some (str ''domain'', lower U g)
                   | None \<Rightarrow>
                      (case raw_domain_match U (first_token (strip raw)) of
                         Some g \<Rightarrow> Some (str ''domain'', lower U g)
                       | None \<Rightarrow> None)))"
      using ne nc by (simp add: parse_line_def Let_def sp getitem_def split: option.splits)
  qed
  have m: "rule_type_map (str ''full'') = Full" "rule_type_map (str ''domain'') = RootDomain"
    by code_simp+
  have e1: "parse_line U (str ''0.0.0.0 ads.example.com'')
      = Inr (Some (str ''full'', str ''ads.example.com''))"
    by code_simp
  have e1': "raw_domain_match U (first_token (str ''0.0.0.0 ads.example.com''))
      = Some (str ''0.0.0.0'')"
    by code_simp
  have e2: "parse_line U (str ''||tracker.example.net^'')
      = Inr (Some (str ''domain'', str ''tracker.example.net''))"
    by code_simp
  have e3: "parse_line U (str ''plain-domain.org'')
      = Inr (Some (str ''domain'', str ''plain-domain.org''))"
    by code_simp
  have e4: "parse_line U (str ''http://example.com/path'') = Inr None"
    by code_simp
  show ?thesis using blank order m e1 e1' e2 e3 e4 by blast
qed

theorem classify_priority_witness:
  "strip (str ''  0.0.0.0 Ads.Example.com  # x'') \<noteq> []
   \<and> \<not> startswith_any (strip (str ''  0.0.0.0 Ads.Example.com  # x''))
         [str ''#'', str ''!'', str ''/'']
   \<and> parse_line latin1_db (str ''  0.0.0.0 Ads.Example.com  # x'')
       = Inr (Some (str ''full'', str ''ads.example.com''))
   \<and> startswith_any (strip (str '' ! note'')) [str ''#'', str ''!'', str ''/'']
   \<and> parse_line latin1_db (str '' ! note'') = Inr None"
proof -
  have a: "strip (str ''  0.0.0.0 Ads.Example.com  # x'') \<noteq> []
      \<and> \<not> startswith_any (strip (str ''  0.0.0.0 Ads.Example.com  # x''))
            [str ''#'', str ''!'', str ''/'']"
    by code_simp
  have h: "hosts_match latin1_db (strip (str ''  0.0.0.0 Ads.Example.com  # x''))
      = Some (str ''Ads.Example.com'')"
    by code_simp
  have l: "lower latin1_db (str ''Ads.Example.com'') = str ''ads.example.com''" by code_simp
  have b: "startswith_any (strip (str '' ! note'')) [str ''#'', str ''!'', str ''/'']"
    by code_simp
  from classify_priority [of "str ''  0.0.0.0 Ads.Example.com  # x''" latin1_db] a h l
  have 1: "parse_line latin1_db (str ''  0.0.0.0 Ads.Example.com  # x'')
      = Inr (Some (str ''full'', str ''ads.example.com''))"
    by simp
  from classify_priority [of "str '' ! note''" latin1_db] b
  have 2: "parse_line latin1_db (str '' ! note'') = Inr None" by blast
  show ?thesis using a b 1 2 by blast
qed

text \<open>
  Claim C3, as stated, fails: the raw-domain pattern accepts tokens that are not made
  of labels. The line \<^verbatim>\<open>..com\<close> is neither blank nor a comment and matches neither the
  hosts pattern nor the ad-blocking pattern; its only token has two empty labels in
  front of \<^verbatim>\<open>com\<close>; and it gives a rule.
\<close>

theorem token_without_labels_counterexample:
  "strip (str ''..com'') \<noteq> []
   \<and> \<not> startswith_any (strip (str ''..com'')) [str ''#'', str ''!'', str ''/'']
   \<and> hosts_match latin1_db (strip (str ''..com'')) = None
   \<and> adguard_match latin1_db (strip (str ''..com'')) = None
   \<and> first_token (strip (str ''..com'')) = str ''..com''
   \<and> dot_fields (str ''..com'') = [[], [], str ''com'']
   \<and> \<not> label_tld_shape latin1_db (str ''..com'')
   \<and> parse_line latin1_db (str ''..com'') = Inr (Some (str ''domain'', str ''..com''))"
  by code_simp

text \<open>
  Claim C3, amended. A line that is neither blank nor a comment and matches neither the
  hosts pattern nor the ad-blocking pattern gives the domain rule of its first token, in
  lower case, whatever follows the token on the line, exactly when the token is made of
  word characters, dots and hyphens only, the text after its last dot is a non-empty
  run of word characters and the text before its last dot is not empty; otherwise it
  gives no rule.
\<close>

theorem raw_domain_fallback:
  assumes "strip raw \<noteq> []"
    and "\<not> startswith_any (strip raw) [str ''#'', str ''!'', str ''/'']"
    and "hosts_match U (strip raw) = None" and "adguard_match U (strip raw) = None"
  shows "parse_line U raw =
    Inr (if last_dot_shape U (first_token (strip raw))
         then Some (str ''domain'', lower U (first_token (strip raw))) else None)"
  using assms by (rule parse_line_fallback)

theorem raw_domain_fallback_witness:
  "strip (str '' Ads.Example.ORG  trailing words '') \<noteq> []
   \<and> \<not> startswith_any (strip (str '' Ads.Example.ORG  trailing words ''))
         [str ''#'', str ''!'', str ''/'']
   \<and> hosts_match latin1_db (strip (str '' Ads.Example.ORG  trailing words '')) = None
   \<and> adguard_match latin1_db (strip (str '' Ads.Example.ORG  trailing words '')) = None
   \<and> last_dot_shape latin1_db (first_token (strip (str '' Ads.Example.ORG  trailing words '')))
   \<and> parse_line latin1_db (str '' Ads.Example.ORG  trailing words '')
       = Inr (Some (str ''domain'', str ''ads.example.org''))"
proof -
  let ?raw = "str '' Ads.Example.ORG  trailing words ''"
  have a: "strip ?raw \<noteq> []" by code_simp
  have b: "\<not> startswith_any (strip ?raw) [str ''#'', str ''!'', str ''/'']" by code_simp
  have c: "hosts_match latin1_db (strip ?raw) = None" by code_simp
  have d: "adguard_match latin1_db (strip ?raw) = None" by code_simp
  have e: "last_dot_shape latin1_db (first_token (strip ?raw))" by code_simp
  have f: "lower latin1_db (first_token (strip ?raw)) = str ''ads.example.org''" by code_simp
  show ?thesis using raw_domain_fallback [OF a b c d] a b c d e f by simp
qed

subsection \<open>The claims on whole texts\<close>

text \<open>
  Claim C5. When a line from which a rule is extracted occurs more than once in the
  text, the rule set returned by \<^verbatim>\<open>parse_blocklist\<close> holds that rule exactly once: adding
  it again changes nothing, the result is that of the text with the repeated lines
  removed, and it has at most as many rules as the text has distinct lines.
\<close>

theorem repeated_line_one_rule:
  assumes "1 < count_list (splitlines content) l" and "parse_line U l = Inr (Some r)"
  shows "\<exists>rs. parse_blocklist U content = Inr rs \<and> r \<in> rs \<and> card {x \<in> rs. x = r} = 1
           \<and> insert r rs = rs
           \<and> parse_lines U {} (remdups (splitlines content)) = Inr rs
           \<and> card rs \<le> length (remdups (splitlines content))"
proof -
  let ?ls = "splitlines content"
  have "l \<in> set ?ls" using assms(1) count_list_0_iff [of ?ls l] by (cases "l \<in> set ?ls") simp_all
  then have r: "r \<in> rules_of_lines U ?ls" using assms(2) by (auto simp: rules_of_lines_def)
  then have "{x \<in> rules_of_lines U ?ls. x = r} = {r}" by auto
  then have "card {x \<in> rules_of_lines U ?ls. x = r} = 1" by simp
  moreover have "parse_lines U {} (remdups ?ls) = Inr (rules_of_lines U ?ls)"
    by (simp add: parse_lines_eq rules_of_lines_def)
  moreover have "insert r (rules_of_lines U ?ls) = rules_of_lines U ?ls" using r by auto
  ultimately show ?thesis
    using r card_rules_of_lines [of U ?ls] by (simp add: parse_blocklist_eq)
qed

theorem repeated_line_one_rule_witness:
  "1 < count_list (splitlines (str ''Ads.example.com'' @ [10] @ str ''x.org'' @ [10]
         @ str ''Ads.example.com'')) (str ''Ads.example.com'')
   \<and> parse_line latin1_db (str ''Ads.example.com'')
       = Inr (Some (str ''domain'', str ''ads.example.com''))
   \<and> parse_blocklist latin1_db (str ''Ads.example.com'' @ [10] @ str ''x.org'' @ [10]
         @ str ''Ads.example.com'')
       = Inr {(str ''domain'', str ''ads.example.com''), (str ''domain'', str ''x.org'')}
   \<and> card {x \<in> {(str ''domain'', str ''ads.example.com''), (str ''domain'', str ''x.org'')}.
             x = (str ''domain'', str ''ads.example.com'')} = 1"
proof -
  let ?c = "str ''Ads.example.com'' @ [10] @ str ''x.org'' @ [10] @ str ''Ads.example.com''"
  have a: "1 < count_list (splitlines ?c) (str ''Ads.example.com'')" by code_simp
  have b: "parse_line latin1_db (str ''Ads.example.com'')
      = Inr (Some (str ''domain'', str ''ads.example.com''))" by code_simp
  have c: "parse_blocklist latin1_db ?c
      = Inr {(str ''domain'', str ''ads.example.com''), (str ''domain'', str ''x.org'')}"
    by code_simp
  from repeated_line_one_rule [OF a b] c
  have "card {x \<in> {(str ''domain'', str ''ads.example.com''), (str ''domain'', str ''x.org'')}.
             x = (str ''domain'', str ''ads.example.com'')} = 1" by simp
  with a b c show ?thesis by blast
qed

text \<open>
  Claim C7. \<^verbatim>\<open>parse_blocklist\<close> returns a rule set for every text and raises nothing: no
  turn of its loop raises, and the result is the finite set of the rules of the lines
  that are recognised, the other lines leaving no trace.
\<close>

theorem parse_blocklist_total:
  "(\<exists>rs. parse_blocklist U content = Inr rs \<and> finite rs \<and>
      rs = {r. \<exists>l \<in> set (splitlines content). parse_line U l = Inr (Some r)})
   \<and> (\<exists>x. parse_line U raw = Inr x)
   \<and> (\<exists>rs. parse_lines U rules ls = Inr rs)"
  using parse_line_Inr [of U raw] finite_rules_of_lines [of U "splitlines content"]
  by (simp add: parse_blocklist_eq parse_lines_eq) (simp add: rules_of_lines_def)

theorem parse_blocklist_total_witness:
  "parse_blocklist latin1_db (str ''<html>'' @ [10, 10] @ str ''::1 localhost'' @ [10]
       @ str ''*.wild.card'' @ [10] @ str ''ok.example'')
     = Inr {(str ''domain'', str ''ok.example'')}
   \<and> parse_line latin1_db (str ''::1 localhost'') = Inr None"
proof -
  let ?c = "str ''<html>'' @ [10, 10] @ str ''::1 localhost'' @ [10] @ str ''*.wild.card''
    @ [10] @ str ''ok.example''"
  have c: "{r. \<exists>l \<in> set (splitlines ?c). parse_line latin1_db l = Inr (Some r)}
      = {(str ''domain'', str ''ok.example'')}"
  proof -
    have s: "splitlines ?c
        = [str ''<html>'', [], str ''::1 localhost'', str ''*.wild.card'', str ''ok.example'']"
      by code_simp
    have p: "parse_line latin1_db (str ''<html>'') = Inr None"
      "parse_line latin1_db [] = Inr None"
      "parse_line latin1_db (str ''::1 localhost'') = Inr None"
      "parse_line latin1_db (str ''*.wild.card'') = Inr None"
      "parse_line latin1_db (str ''ok.example'') = Inr (Some (str ''domain'', str ''ok.example''))"
      by code_simp+
    show ?thesis unfolding s using p by auto
  qed
  have n: "parse_line latin1_db (str ''::1 localhost'') = Inr None" by code_simp
  from parse_blocklist_total [of latin1_db ?c "str ''::1 localhost''" "{}" "[]"] c n
  show ?thesis by auto
qed

text \<open>
  Claim C6. The domain of every rule that \<^verbatim>\<open>parse_blocklist\<close> returns is the lower case
  of a non-empty run of word characters, dots and hyphens. It is in lower case (lowering
  it changes nothing), it is not empty and it has no white space at its ends: for a
  text of ASCII characters by the program alone, and for any text by the three facts
  about \<^verbatim>\<open>str.lower\<close>. The lines \<^verbatim>\<open>WWW.Example.COM\<close> and \<^verbatim>\<open>www.example.com\<close> of
  one text give the single rule for \<^verbatim>\<open>www.example.com\<close>.
\<close>

theorem domains_normalised:
  "(\<exists>rs. parse_blocklist U content = Inr rs \<and>
      (\<forall>r \<in> rs. \<exists>g. g \<noteq> [] \<and> list_all (is_domain_char U) g \<and> snd r = lower U g) \<and>
      (lower_facts U \<or> is_ascii content \<longrightarrow>
         (\<forall>r \<in> rs. lower U (snd r) = snd r \<and> snd r \<noteq> [] \<and> strip (snd r) = snd r)))
   \<and> parse_blocklist U (str ''WWW.Example.COM'' @ [10] @ str ''www.example.com'')
       = Inr {(str ''domain'', str ''www.example.com'')}"
proof -
  let ?rs = "rules_of_lines U (splitlines content)"
  have group: "\<exists>g. g \<noteq> [] \<and> list_all (is_domain_char U) g \<and> snd r = lower U g \<and>
      set g \<subseteq> set content" if "r \<in> ?rs" for r
  proof -
    from that obtain l where l: "l \<in> set (splitlines content)" "parse_line U l = Inr (Some r)"
      by (auto simp: rules_of_lines_def)
    from parse_line_sub [OF l(2)] obtain g
      where g: "snd r = lower U g" "g \<noteq> []" "list_all (is_domain_char U) g" "set g \<subseteq> set l"
      by blast
    then show ?thesis using splitlines_sub [OF l(1)] by blast
  qed
  have a: "\<forall>r \<in> ?rs. \<exists>g. g \<noteq> [] \<and> list_all (is_domain_char U) g \<and> snd r = lower U g"
    using group by blast
  have b: "lower U (snd r) = snd r \<and> snd r \<noteq> [] \<and> strip (snd r) = snd r"
    if f: "lower_facts U \<or> is_ascii content" and r: "r \<in> ?rs" for r
  proof -
    from group [OF r] obtain g
      where g: "g \<noteq> []" "list_all (is_domain_char U) g" "snd r = lower U g"
        "set g \<subseteq> set content"
      by blast
    have "lower U (lower U g) = lower U g \<and> lower U g \<noteq> [] \<and>
        list_all (\<lambda>c. \<not> is_space c) (lower U g)"
      using f
    proof
      assume "lower_facts U"
      then show ?thesis using g(1,2) unfolding lower_facts_def by blast
    next
      assume "is_ascii content"
      then have ag: "is_ascii g" using g(4) by (auto simp: is_ascii_def list_all_iff)
      then have "lower U g = map ascii_lower g" by (simp add: lower_def)
      then have "lower U g \<noteq> []" using g(1) by simp
      then show ?thesis using lower_ascii_domain [OF ag g(2)] by simp
    qed
    then show ?thesis using g(3) by (simp add: strip_no_space)
  qed
  have c: "parse_blocklist U (str ''WWW.Example.COM'' @ [10] @ str ''www.example.com'')
       = Inr {(str ''domain'', str ''www.example.com'')}"
    by code_simp
  show ?thesis using a b c by (simp add: parse_blocklist_eq)
qed

theorem domains_normalised_witness:
  "lower_facts latin1_db
   \<and> parse_blocklist latin1_db (str ''127.0.0.1   CAF'' @ [0xC9] @ str ''.Example'' @ [13, 10]
         @ str ''  ||Ads.Example.org^$third-party'')
     = Inr {(str ''full'', str ''caf'' @ [0xE9] @ str ''.example''),
            (str ''domain'', str ''ads.example.org'')}
   \<and> lower latin1_db (str ''caf'' @ [0xE9] @ str ''.example'') = str ''caf'' @ [0xE9] @ str ''.example''
   \<and> str ''caf'' @ [0xE9] @ str ''.example'' \<noteq> []
   \<and> strip (str ''caf'' @ [0xE9] @ str ''.example'') = str ''caf'' @ [0xE9] @ str ''.example''"
proof -
  let ?c = "str ''127.0.0.1   CAF'' @ [0xC9] @ str ''.Example'' @ [13, 10]
    @ str ''  ||Ads.Example.org^$third-party''"
  let ?d = "str ''caf'' @ [0xE9] @ str ''.example''"
  have c: "parse_blocklist latin1_db ?c
      = Inr {(str ''full'', ?d), (str ''domain'', str ''ads.example.org'')}"
    by code_simp
  from domains_normalised [of latin1_db ?c] c lower_facts_latin1
  have "\<forall>r \<in> {(str ''full'', ?d), (str ''domain'', str ''ads.example.org'')}.
      lower latin1_db (snd r) = snd r \<and> snd r \<noteq> [] \<and> strip (snd r) = snd r"
    by simp
  then have "lower latin1_db ?d = ?d \<and> ?d \<noteq> [] \<and> strip ?d = ?d"
    by simp
  with c lower_facts_latin1 show ?thesis by blast
qed

section \<open>Properties of the run\<close>

subsection \<open>Assignment to a dictionary key\<close>

lemma map_of_setitem: "map_of (setitem d k v) = (map_of d)(k \<mapsto> v)"
  by (induction d k v rule: setitem.induct) (auto simp: fun_eq_iff)

lemma keys_setitem: "fst ` set (setitem d k v) = insert k (fst ` set d)"
  by (induction d k v rule: setitem.induct) auto

lemma set_setitem_subset: "set (setitem d k v) \<subseteq> insert (k, v) (set d)"
  by (induction d k v rule: setitem.induct) auto

lemma distinct_setitem: "distinct (map fst d) \<Longrightarrow> distinct (map fst (setitem d k v))"
  by (induction d k v rule: setitem.induct) (auto simp: keys_setitem)

lemma setitem_new: "k \<notin> fst ` set d \<Longrightarrow> setitem d k v = d @ [(k, v)]"
  by (induction d k v rule: setitem.induct) auto




lemma keys_foldl_store: "fst ` set (foldl store d ps) = fst ` set d \<union> fst ` set ps"
  by (induction ps arbitrary: d) (auto simp: keys_setitem)

lemma set_foldl_store: "set (foldl store d ps) \<subseteq> set d \<union> set ps"
proof (induction ps arbitrary: d)
  case Nil
  show ?case by simp
next
  case (Cons p ps)
  have "set (foldl store (store d p) ps) \<subseteq> set (store d p) \<union> set ps" by (rule Cons.IH)
  also have "\<dots> \<subseteq> insert p (set d) \<union> set ps"
    using set_setitem_subset [of d "fst p" "snd p"] by auto
  finally show ?case by auto
qed

lemma distinct_foldl_store:
  "distinct (map fst d) \<Longrightarrow> distinct (map fst (foldl store d ps))"
  by (induction ps arbitrary: d) (simp_all add: distinct_setitem)

lemma foldl_store_distinct:
  "distinct (map fst ps) \<Longrightarrow> fst ` set ps \<inter> fst ` set d = {} \<Longrightarrow> foldl store d ps = d @ ps"
proof (induction ps arbitrary: d)
  case Nil
  show ?case by simp
next
  case (Cons p ps)
  have new: "fst p \<notin> fst ` set d" using Cons.prems(2) by auto
  then have s: "store d p = d @ [p]" by (simp add: setitem_new)
  have i: "fst ` set ps \<inter> fst ` set (d @ [p]) = {}" using Cons.prems by auto
  have "distinct (map fst ps)" using Cons.prems(1) by simp
  then have "foldl store (d @ [p]) ps = (d @ [p]) @ ps" using i by (rule Cons.IH)
  then show ?case using s by simp
qed

subsection \<open>The loop over the manifest\<close>

lemma unpack2_cases:
  "unpack2 xs = Inl ValueError \<or> (\<exists>a b. xs = [a, b] \<and> unpack2 xs = Inr (a, b))"
  by (auto simp: unpack2_def split: list.splits)

lemma fetch_and_store_sources:
  "\<exists>st'. fetch_and_store U fetch st name url = Inr st' \<and>
     blocklists st' = (case fetch url of None \<Rightarrow> blocklists st
        | Some content \<Rightarrow> setitem (blocklists st) name (rules_of_lines U (splitlines content))) \<and>
     all_rules st' = (case fetch url of None \<Rightarrow> all_rules st
        | Some content \<Rightarrow> all_rules st \<union> rules_of_lines U (splitlines content))"
  by (simp add: fetch_and_store_def Let_def parse_blocklist_eq split: option.splits)

lemma process_line_sources:
  "\<exists>st'. process_line U fetch st raw = Inr st' \<and>
     blocklists st' = (case parsed_source U fetch raw of None \<Rightarrow> blocklists st
        | Some p \<Rightarrow> store (blocklists st) p) \<and>
     all_rules st' = (case parsed_source U fetch raw of None \<Rightarrow> all_rules st
        | Some p \<Rightarrow> all_rules st \<union> snd p)"
proof (cases "strip raw = [] \<or> startswith (strip raw) (str ''#'')")
  case True
  then show ?thesis
    by (auto simp: process_line_def parsed_source_def manifest_entry_def Let_def)
next
  case False
  show ?thesis
    using unpack2_cases [of "map strip (split_comma_1 (strip raw))"]
  proof
    assume "unpack2 (map strip (split_comma_1 (strip raw))) = Inl ValueError"
    then show ?thesis using False
      by (simp add: process_line_def parsed_source_def manifest_entry_def Let_def)
  next
    assume "\<exists>a b. map strip (split_comma_1 (strip raw)) = [a, b] \<and>
        unpack2 (map strip (split_comma_1 (strip raw))) = Inr (a, b)"
    then obtain a b where u: "unpack2 (map strip (split_comma_1 (strip raw))) = Inr (a, b)"
      by blast
    show ?thesis using False u fetch_and_store_sources [of U fetch st a b]
      by (auto simp: process_line_def parsed_source_def manifest_entry_def Let_def
          parse_blocklist_eq split: option.splits)
  qed
qed

lemma read_manifest_sources:
  "\<exists>st'. read_manifest U fetch st manifest = Inr st' \<and>
     blocklists st' = foldl store (blocklists st) (parsed_sources U fetch manifest) \<and>
     all_rules st' = all_rules st \<union> \<Union> (snd ` set (parsed_sources U fetch manifest))"
proof (induction manifest arbitrary: st)
  case Nil
  show ?case by (simp add: parsed_sources_def map_filter_simps)
next
  case (Cons l ls)
  obtain st1 where 1: "process_line U fetch st l = Inr st1"
    and b1: "blocklists st1 = (case parsed_source U fetch l of None \<Rightarrow> blocklists st
        | Some p \<Rightarrow> store (blocklists st) p)"
    and a1: "all_rules st1 = (case parsed_source U fetch l of None \<Rightarrow> all_rules st
        | Some p \<Rightarrow> all_rules st \<union> snd p)"
    using process_line_sources [of U fetch st l] by blast
  obtain st2 where 2: "read_manifest U fetch st1 ls = Inr st2"
    and b2: "blocklists st2 = foldl store (blocklists st1) (parsed_sources U fetch ls)"
    and a2: "all_rules st2 = all_rules st1 \<union> \<Union> (snd ` set (parsed_sources U fetch ls))"
    using Cons.IH [of st1] by blast
  show ?case
    using 1 2 b1 a1 b2 a2
    by (cases "parsed_source U fetch l") (auto simp: parsed_sources_def map_filter_simps)
qed

lemma run_sources:
  assumes "read_manifest U fetch initial_state manifest = Inr st"
  shows "blocklists st = foldl store [] (parsed_sources U fetch manifest)"
    and "all_rules st = \<Union> (snd ` set (parsed_sources U fetch manifest))"
  using assms read_manifest_sources [of U fetch initial_state manifest]
  by (auto simp: initial_state_def)

lemma run_invariant:
  assumes "read_manifest U fetch initial_state manifest = Inr st"
  shows "distinct (map fst (blocklists st))"
    and "\<forall>g \<in> set (blocklists st). snd g \<subseteq> all_rules st"
    and "fst ` set (blocklists st) = fst ` set (parsed_sources U fetch manifest)"
proof -
  note r = run_sources [OF assms]
  show "distinct (map fst (blocklists st))"
    unfolding r by (rule distinct_foldl_store) simp
  show "\<forall>g \<in> set (blocklists st). snd g \<subseteq> all_rules st"
    unfolding r using set_foldl_store [of "[]" "parsed_sources U fetch manifest"] by auto
  show "fst ` set (blocklists st) = fst ` set (parsed_sources U fetch manifest)"
    unfolding r by (simp add: keys_foldl_store)
qed

subsection \<open>The combined list\<close>

text \<open>
  Claim C1, as stated, fails: the combined list is not the union of the groups that the
  catalog holds when it is sealed. Two manifest lines with the same name \<^verbatim>\<open>a\<close> leave one
  group \<^verbatim>\<open>a\<close>, that of the second line, while \<^verbatim>\<open>all_rules\<close> has received the rules of
  both.
\<close>

theorem combined_not_union_of_groups_counterexample:
  "read_manifest latin1_db (map_of [(str ''u1'', str ''x.com''), (str ''u2'', str ''y.com'')])
       initial_state [str ''a,u1'', str ''a,u2'']
     = Inr \<lparr>blocklists = [(str ''a'', {(str ''domain'', str ''y.com'')})],
            all_rules = {(str ''domain'', str ''x.com''), (str ''domain'', str ''y.com'')},
            log = [Fetching_list (str ''a'') (str ''u1''), Parsed_rules 1 (str ''a''),
                   Fetching_list (str ''a'') (str ''u2''), Parsed_rules 1 (str ''a'')]\<rparr>
   \<and> blocklists (add_combined
         \<lparr>blocklists = [(str ''a'', {(str ''domain'', str ''y.com'')})],
          all_rules = {(str ''domain'', str ''x.com''), (str ''domain'', str ''y.com'')},
          log = [Fetching_list (str ''a'') (str ''u1''), Parsed_rules 1 (str ''a''),
                 Fetching_list (str ''a'') (str ''u2''), Parsed_rules 1 (str ''a'')]\<rparr>)
     = [(str ''a'', {(str ''domain'', str ''y.com'')}),
        (str ''blocklists-all'', {(str ''domain'', str ''x.com''), (str ''domain'', str ''y.com'')})]
   \<and> {(str ''domain'', str ''x.com''), (str ''domain'', str ''y.com'')}
       \<noteq> \<Union> (snd ` set [(str ''a'', {(str ''domain'', str ''y.com'')})])"
proof -
  have 1: "read_manifest latin1_db (map_of [(str ''u1'', str ''x.com''), (str ''u2'', str ''y.com'')])
       initial_state [str ''a,u1'', str ''a,u2'']
     = Inr \<lparr>blocklists = [(str ''a'', {(str ''domain'', str ''y.com'')})],
            all_rules = {(str ''domain'', str ''x.com''), (str ''domain'', str ''y.com'')},
            log = [Fetching_list (str ''a'') (str ''u1''), Parsed_rules 1 (str ''a''),
                   Fetching_list (str ''a'') (str ''u2''), Parsed_rules 1 (str ''a'')]\<rparr>"
    by code_simp
  have 2: "blocklists (add_combined
         \<lparr>blocklists = [(str ''a'', {(str ''domain'', str ''y.com'')})],
          all_rules = {(str ''domain'', str ''x.com''), (str ''domain'', str ''y.com'')},
          log = [Fetching_list (str ''a'') (str ''u1''), Parsed_rules 1 (str ''a''),
                 Fetching_list (str ''a'') (str ''u2''), Parsed_rules 1 (str ''a'')]\<rparr>)
     = [(str ''a'', {(str ''domain'', str ''y.com'')}),
        (str ''blocklists-all'', {(str ''domain'', str ''x.com''), (str ''domain'', str ''y.com'')})]"
    by code_simp
  have 3: "{(str ''domain'', str ''x.com''), (str ''domain'', str ''y.com'')}
       \<noteq> \<Union> (snd ` set [(str ''a'', {(str ''domain'', str ''y.com'')})])"
    by code_simp
  show ?thesis using 1 2 3 by blast
qed

text \<open>
  Claim C1, amended. After the loop \<^verbatim>\<open>all_rules\<close> is the union of the rule sets of all
  the sources parsed during the run, and this is the rule set of the combined list
  when one is created. When the names of the parsed sources are pairwise distinct, the
  catalog holds exactly these sources, and the combined list is the union of the rule
  sets of its groups.
\<close>

theorem combined_is_union_of_sources:
  assumes "read_manifest U fetch initial_state manifest = Inr st"
  shows "all_rules st = \<Union> (snd ` set (parsed_sources U fetch manifest))
     \<and> (all_rules st \<noteq> {} \<longrightarrow>
          map_of (blocklists (add_combined st)) (str ''blocklists-all'') = Some (all_rules st))
     \<and> (distinct (map fst (parsed_sources U fetch manifest)) \<longrightarrow>
          blocklists st = parsed_sources U fetch manifest \<and>
          all_rules st = \<Union> (snd ` set (blocklists st)))"
proof -
  note r = run_sources [OF assms]
  have "map_of (blocklists (add_combined st)) (str ''blocklists-all'') = Some (all_rules st)"
    if "all_rules st \<noteq> {}"
    using that by (simp add: add_combined_def map_of_setitem)
  moreover have "blocklists st = parsed_sources U fetch manifest"
    if "distinct (map fst (parsed_sources U fetch manifest))"
    using that r(1) foldl_store_distinct [of "parsed_sources U fetch manifest" "[]"] by simp
  ultimately show ?thesis using r(2) by auto
qed

theorem combined_is_union_of_sources_witness:
  "read_manifest latin1_db (map_of [(str ''u1'', str ''x.com''), (str ''u2'', str ''y.com'')])
       initial_state [str ''a,u1'', str ''b,u2'', str ''c,u3'']
     = Inr \<lparr>blocklists = [(str ''a'', {(str ''domain'', str ''x.com'')}),
                          (str ''b'', {(str ''domain'', str ''y.com'')})],
            all_rules = {(str ''domain'', str ''x.com''), (str ''domain'', str ''y.com'')},
            log = [Fetching_list (str ''a'') (str ''u1''), Parsed_rules 1 (str ''a''),
                   Fetching_list (str ''b'') (str ''u2''), Parsed_rules 1 (str ''b''),
                   Fetching_list (str ''c'') (str ''u3''), Failed_to_fetch (str ''u3'')]\<rparr>
   \<and> distinct (map fst (parsed_sources latin1_db
        (map_of [(str ''u1'', str ''x.com''), (str ''u2'', str ''y.com'')])
        [str ''a,u1'', str ''b,u2'', str ''c,u3'']))
   \<and> map_of (blocklists (add_combined
        \<lparr>blocklists = [(str ''a'', {(str ''domain'', str ''x.com'')}),
                       (str ''b'', {(str ''domain'', str ''y.com'')})],
         all_rules = {(str ''domain'', str ''x.com''), (str ''domain'', str ''y.com'')},
         log = [Fetching_list (str ''a'') (str ''u1''), Parsed_rules 1 (str ''a''),
                Fetching_list (str ''b'') (str ''u2''), Parsed_rules 1 (str ''b''),
                Fetching_list (str ''c'') (str ''u3''), Failed_to_fetch (str ''u3'')]\<rparr>))
        (str ''blocklists-all'')
     = Some (\<Union> (snd ` set [(str ''a'', {(str ''domain'', str ''x.com'')}),
                             (str ''b'', {(str ''domain'', str ''y.com'')})]))"
proof -
  let ?f = "map_of [(str ''u1'', str ''x.com''), (str ''u2'', str ''y.com'')]"
  let ?m = "[str ''a,u1'', str ''b,u2'', str ''c,u3'']"
  let ?st = "\<lparr>blocklists = [(str ''a'', {(str ''domain'', str ''x.com'')}),
                          (str ''b'', {(str ''domain'', str ''y.com'')})],
            all_rules = {(str ''domain'', str ''x.com''), (str ''domain'', str ''y.com'')},
            log = [Fetching_list (str ''a'') (str ''u1''), Parsed_rules 1 (str ''a''),
                   Fetching_list (str ''b'') (str ''u2''), Parsed_rules 1 (str ''b''),
                   Fetching_list (str ''c'') (str ''u3''), Failed_to_fetch (str ''u3'')]\<rparr>"
  have 1: "read_manifest latin1_db ?f initial_state ?m = Inr ?st" by code_simp
  have 2: "distinct (map fst (parsed_sources latin1_db ?f ?m))" by code_simp
  have 3: "all_rules ?st \<noteq> {}" by simp
  from combined_is_union_of_sources [OF 1] 2 3
  have "map_of (blocklists (add_combined ?st)) (str ''blocklists-all'') = Some (all_rules ?st)"
    and "all_rules ?st = \<Union> (snd ` set (blocklists ?st))"
    by blast+
  then have "map_of (blocklists (add_combined ?st)) (str ''blocklists-all'')
      = Some (\<Union> (snd ` set [(str ''a'', {(str ''domain'', str ''x.com'')}),
                              (str ''b'', {(str ''domain'', str ''y.com'')})]))"
    by simp
  with 1 2 show ?thesis by blast
qed



subsection \<open>The empty union\<close>

lemma country_code_entries:
  "country_code ` set (geosite_entries U iter d) = (\<lambda>g. upper U (fst g)) ` set d"
  by (simp add: geosite_entries_def make_site_def image_image)

lemma upper_keys:
  assumes "fst ` set d = fst ` set ps"
  shows "(\<lambda>g. upper U (fst g)) ` set d = (\<lambda>p. upper U (fst p)) ` set ps"
proof -
  have "(\<lambda>g. upper U (fst g)) ` set d = upper U ` (fst ` set d)" by (simp add: image_image)
  also have "\<dots> = upper U ` (fst ` set ps)" using assms by simp
  also have "\<dots> = (\<lambda>p. upper U (fst p)) ` set ps" by (simp add: image_image)
  finally show ?thesis .
qed

text \<open>
  Claim C10. When the union of the rule sets of the parsed sources is empty, sealing
  changes nothing: no group is added to the catalog, and the output is assembled from
  the catalog as the loop left it. When no parsed source is named \<^verbatim>\<open>blocklists-all\<close>, the
  sealed catalog has a group of that name exactly when the union is not empty; and with
  an empty union the output has the label \<^verbatim>\<open>BLOCKLISTS-ALL\<close> only if a source's own name
  gives it.
\<close>

theorem no_combined_when_no_rules:
  assumes "read_manifest U fetch initial_state manifest = Inr st"
  shows "all_rules st = \<Union> (snd ` set (parsed_sources U fetch manifest))
     \<and> (all_rules st = {} \<longrightarrow>
          add_combined st = st \<and>
          main_run U fetch iter manifest = Inr (st, geosite_entries U iter (blocklists st)))
     \<and> (str ''blocklists-all'' \<notin> fst ` set (parsed_sources U fetch manifest) \<longrightarrow>
          (str ''blocklists-all'' \<in> fst ` set (blocklists (add_combined st))
             \<longleftrightarrow> all_rules st \<noteq> {}))
     \<and> (all_rules st = {} \<and>
        str ''BLOCKLISTS-ALL'' \<notin> (\<lambda>p. upper U (fst p)) ` set (parsed_sources U fetch manifest) \<longrightarrow>
          str ''BLOCKLISTS-ALL''
            \<notin> country_code ` set (geosite_entries U iter (blocklists (add_combined st))))"
proof (intro conjI impI)
  show "all_rules st = \<Union> (snd ` set (parsed_sources U fetch manifest))"
    by (rule run_sources(2) [OF assms])
next
  assume "all_rules st = {}"
  then show "add_combined st = st" by (simp add: add_combined_def)
next
  assume "all_rules st = {}"
  then have "add_combined st = st" by (simp add: add_combined_def)
  then show "main_run U fetch iter manifest = Inr (st, geosite_entries U iter (blocklists st))"
    using assms by (simp add: main_run_def Let_def)
next
  assume n: "str ''blocklists-all'' \<notin> fst ` set (parsed_sources U fetch manifest)"
  have k: "fst ` set (blocklists st) = fst ` set (parsed_sources U fetch manifest)"
    by (rule run_invariant(3) [OF assms])
  show "str ''blocklists-all'' \<in> fst ` set (blocklists (add_combined st))
      \<longleftrightarrow> all_rules st \<noteq> {}"
  proof (cases "all_rules st = {}")
    case True
    then have "add_combined st = st" by (simp add: add_combined_def)
    then show ?thesis using True n k by simp
  next
    case False
    then have "blocklists (add_combined st)
        = setitem (blocklists st) (str ''blocklists-all'') (all_rules st)"
      by (simp add: add_combined_def)
    then show ?thesis using False by (simp add: keys_setitem)
  qed
next
  assume a: "all_rules st = {} \<and>
      str ''BLOCKLISTS-ALL'' \<notin> (\<lambda>p. upper U (fst p)) ` set (parsed_sources U fetch manifest)"
  then have e: "add_combined st = st" by (simp add: add_combined_def)
  have "country_code ` set (geosite_entries U iter (blocklists st))
      = (\<lambda>p. upper U (fst p)) ` set (parsed_sources U fetch manifest)"
    unfolding country_code_entries
    by (rule upper_keys) (rule run_invariant(3) [OF assms])
  then show "str ''BLOCKLISTS-ALL''
      \<notin> country_code ` set (geosite_entries U iter (blocklists (add_combined st)))"
    using a e by simp
qed

theorem no_combined_when_no_rules_witness:
  "read_manifest latin1_db (map_of [(str ''u1'', str ''# nothing here''), (str ''u2'', [])])
       initial_state [str ''a,u1'', str ''b,u2'', str ''c,u3'']
     = Inr \<lparr>blocklists = [(str ''a'', {}), (str ''b'', {})], all_rules = {},
            log = [Fetching_list (str ''a'') (str ''u1''), Parsed_rules 0 (str ''a''),
                   Fetching_list (str ''b'') (str ''u2''), Parsed_rules 0 (str ''b''),
                   Fetching_list (str ''c'') (str ''u3''), Failed_to_fetch (str ''u3'')]\<rparr>
   \<and> main_run latin1_db (map_of [(str ''u1'', str ''# nothing here''), (str ''u2'', [])])
        sorted_iteration [str ''a,u1'', str ''b,u2'', str ''c,u3'']
     = Inr (\<lparr>blocklists = [(str ''a'', {}), (str ''b'', {})], all_rules = {},
             log = [Fetching_list (str ''a'') (str ''u1''), Parsed_rules 0 (str ''a''),
                    Fetching_list (str ''b'') (str ''u2''), Parsed_rules 0 (str ''b''),
                    Fetching_list (str ''c'') (str ''u3''), Failed_to_fetch (str ''u3'')]\<rparr>,
            [\<lparr>country_code = str ''A'', domain = []\<rparr>, \<lparr>country_code = str ''B'', domain = []\<rparr>])"
proof -
  let ?f = "map_of [(str ''u1'', str ''# nothing here''), (str ''u2'', [])]"
  let ?m = "[str ''a,u1'', str ''b,u2'', str ''c,u3'']"
  let ?st = "\<lparr>blocklists = [(str ''a'', {}), (str ''b'', {})], all_rules = {},
            log = [Fetching_list (str ''a'') (str ''u1''), Parsed_rules 0 (str ''a''),
                   Fetching_list (str ''b'') (str ''u2''), Parsed_rules 0 (str ''b''),
                   Fetching_list (str ''c'') (str ''u3''), Failed_to_fetch (str ''u3'')]\<rparr>"
  have 1: "read_manifest latin1_db ?f initial_state ?m = Inr ?st" by code_simp
  have 2: "geosite_entries latin1_db sorted_iteration [(str ''a'', {}), (str ''b'', {})]
      = [\<lparr>country_code = str ''A'', domain = []\<rparr>, \<lparr>country_code = str ''B'', domain = []\<rparr>]"
    by code_simp
  have 3: "all_rules ?st = {}" by simp
  from no_combined_when_no_rules [OF 1, of sorted_iteration] 3
  have "main_run latin1_db ?f sorted_iteration ?m
      = Inr (?st, geosite_entries latin1_db sorted_iteration (blocklists ?st))" by blast
  then show ?thesis using 1 2 by simp
qed

subsection \<open>Manifest lines\<close>

lemma fields_from_unfold:
  "fields_from sep cur s =
     (if sep \<in> set s
      then (rev cur @ takeWhile (\<lambda>c. c \<noteq> sep) s)
             # fields_from sep [] (tl (dropWhile (\<lambda>c. c \<noteq> sep) s))
      else [rev cur @ s])"
  by (induction s arbitrary: cur) auto

lemma comma_fields_unfold:
  "comma_fields s =
     (if 44 \<in> set s
      then takeWhile (\<lambda>c. c \<noteq> 44) s # comma_fields (tl (dropWhile (\<lambda>c. c \<noteq> 44) s))
      else [s])"
  using fields_from_unfold [of 44 "[]" s] by (simp add: comma_fields_def)

lemma comma_fields_not_Nil: "comma_fields s \<noteq> []"
  by (subst comma_fields_unfold) simp

lemma comma_fields_one: "length (comma_fields s) = 1 \<longleftrightarrow> 44 \<notin> set s"
  by (subst comma_fields_unfold) (simp add: comma_fields_not_Nil)

lemma comma_fields_hd:
  "44 \<in> set s \<Longrightarrow> hd (comma_fields s) = takeWhile (\<lambda>c. c \<noteq> 44) s"
  by (subst comma_fields_unfold) simp

lemma comma_fields_two:
  assumes "length (comma_fields s) = 2"
  shows "comma_fields s = [takeWhile (\<lambda>c. c \<noteq> 44) s, tl (dropWhile (\<lambda>c. c \<noteq> 44) s)]"
proof -
  let ?r = "tl (dropWhile (\<lambda>c. c \<noteq> 44) s)"
  have c: "44 \<in> set s" using assms comma_fields_one [of s] by auto
  then have u: "comma_fields s = takeWhile (\<lambda>c. c \<noteq> 44) s # comma_fields ?r"
    by (subst comma_fields_unfold) simp
  then have "length (comma_fields ?r) = 1" using assms by simp
  then have "44 \<notin> set ?r" using comma_fields_one [of ?r] by simp
  then have "comma_fields ?r = [?r]" by (subst comma_fields_unfold) simp
  then show ?thesis using u by simp
qed

lemma process_line_no_comma:
  assumes "strip raw \<noteq> []" and "\<not> startswith (strip raw) (str ''#'')"
    and "44 \<notin> set (strip raw)"
  shows "process_line U fetch st raw
    = Inr (st\<lparr>log := log st @ [Skipping_invalid_line (strip raw)]\<rparr>)"
  using assms by (simp add: process_line_def Let_def split_comma_1_def unpack2_def)

lemma process_line_comma:
  assumes "strip raw \<noteq> []" and "\<not> startswith (strip raw) (str ''#'')"
    and "44 \<in> set (strip raw)"
  shows "process_line U fetch st raw =
    fetch_and_store U fetch st (strip (takeWhile (\<lambda>c. c \<noteq> 44) (strip raw)))
      (strip (tl (dropWhile (\<lambda>c. c \<noteq> 44) (strip raw))))"
  using assms by (simp add: process_line_def Let_def split_comma_1_def unpack2_def)

text \<open>
  Claim C9, as stated, fails: a line with three comma-separated fields is not skipped.
  The line is cut at its first comma only, and what follows that comma is the URL,
  commas included.
\<close>

theorem three_fields_processed_counterexample:
  "length (comma_fields (strip (str ''ads,http://h/list?a=1,2''))) = 3
   \<and> process_line latin1_db (map_of [(str ''http://h/list?a=1,2'', str ''x.com'')]) initial_state
        (str ''ads,http://h/list?a=1,2'')
     = Inr \<lparr>blocklists = [(str ''ads'', {(str ''domain'', str ''x.com'')})],
            all_rules = {(str ''domain'', str ''x.com'')},
            log = [Fetching_list (str ''ads'') (str ''http://h/list?a=1,2''),
                   Parsed_rules 1 (str ''ads'')]\<rparr>"
  by code_simp

text \<open>
  Claim C9, amended. A manifest line that is neither blank nor a comment is cut at its
  first comma only. With no comma (a single field) it is skipped: a warning is logged,
  the catalog is untouched and the loop goes on with the next line. With exactly two
  comma-separated fields they are the name and the URL, trimmed. With more, the name is
  the trimmed first field and the URL is the trimmed rest of the line after the first
  comma. Trimming a trimmed field changes nothing.
\<close>

theorem manifest_line_cut_once:
  assumes "strip raw \<noteq> []" and "\<not> startswith (strip raw) (str ''#'')"
  shows "length (comma_fields (strip raw)) \<ge> 1
     \<and> (length (comma_fields (strip raw)) = 1 \<longrightarrow>
          process_line U fetch st raw
            = Inr (st\<lparr>log := log st @ [Skipping_invalid_line (strip raw)]\<rparr>) \<and>
          level (Skipping_invalid_line (strip raw)) = WARNING \<and>
          read_manifest U fetch st (raw # rest)
            = read_manifest U fetch (st\<lparr>log := log st @ [Skipping_invalid_line (strip raw)]\<rparr>)
                rest)
     \<and> (length (comma_fields (strip raw)) = 2 \<longrightarrow>
          process_line U fetch st raw
            = fetch_and_store U fetch st (strip (comma_fields (strip raw) ! 0))
                (strip (comma_fields (strip raw) ! 1)))
     \<and> (length (comma_fields (strip raw)) \<ge> 2 \<longrightarrow>
          process_line U fetch st raw
            = fetch_and_store U fetch st (strip (hd (comma_fields (strip raw))))
                (strip (tl (dropWhile (\<lambda>c. c \<noteq> 44) (strip raw)))))
     \<and> strip (strip x) = strip x"
proof (intro conjI impI)
  show "1 \<le> length (comma_fields (strip raw))"
    using comma_fields_not_Nil [of "strip raw"] by (cases "comma_fields (strip raw)") simp_all
next
  assume "length (comma_fields (strip raw)) = 1"
  then have "44 \<notin> set (strip raw)" using comma_fields_one [of "strip raw"] by simp
  then show "process_line U fetch st raw
      = Inr (st\<lparr>log := log st @ [Skipping_invalid_line (strip raw)]\<rparr>)"
    using assms by (simp add: process_line_no_comma)
next
  show "level (Skipping_invalid_line (strip raw)) = WARNING" by simp
next
  assume "length (comma_fields (strip raw)) = 1"
  then have "44 \<notin> set (strip raw)" using comma_fields_one [of "strip raw"] by simp
  then have "process_line U fetch st raw
      = Inr (st\<lparr>log := log st @ [Skipping_invalid_line (strip raw)]\<rparr>)"
    using assms by (simp add: process_line_no_comma)
  then show "read_manifest U fetch st (raw # rest)
      = read_manifest U fetch (st\<lparr>log := log st @ [Skipping_invalid_line (strip raw)]\<rparr>) rest"
    by simp
next
  assume two: "length (comma_fields (strip raw)) = 2"
  then have c: "44 \<in> set (strip raw)" using comma_fields_one [of "strip raw"] by auto
  show "process_line U fetch st raw
      = fetch_and_store U fetch st (strip (comma_fields (strip raw) ! 0))
          (strip (comma_fields (strip raw) ! 1))"
    using assms c by (simp add: process_line_comma comma_fields_two [OF two])
next
  assume "2 \<le> length (comma_fields (strip raw))"
  then have c: "44 \<in> set (strip raw)" using comma_fields_one [of "strip raw"] by auto
  show "process_line U fetch st raw
      = fetch_and_store U fetch st (strip (hd (comma_fields (strip raw))))
          (strip (tl (dropWhile (\<lambda>c. c \<noteq> 44) (strip raw))))"
    using assms c by (simp add: process_line_comma comma_fields_hd)
next
  show "strip (strip x) = strip x" by (rule strip_idem)
qed

theorem manifest_line_cut_once_witness:
  "strip (str '' no-comma-here '') \<noteq> [] \<and> \<not> startswith (strip (str '' no-comma-here '')) (str ''#'')
   \<and> length (comma_fields (strip (str '' no-comma-here ''))) = 1
   \<and> process_line latin1_db (map_of []) initial_state (str '' no-comma-here '')
       = Inr \<lparr>blocklists = [], all_rules = {},
              log = [Skipping_invalid_line (str ''no-comma-here'')]\<rparr>
   \<and> strip (str ''ads , http://h/l '') \<noteq> []
   \<and> \<not> startswith (strip (str ''ads , http://h/l '')) (str ''#'')
   \<and> length (comma_fields (strip (str ''ads , http://h/l ''))) = 2
   \<and> process_line latin1_db (map_of []) initial_state (str ''ads , http://h/l '')
       = fetch_and_store latin1_db (map_of []) initial_state (str ''ads'') (str ''http://h/l'')"
proof -
  let ?x = "str '' no-comma-here ''" and ?y = "str ''ads , http://h/l ''"
  have a: "strip ?x \<noteq> []" "\<not> startswith (strip ?x) (str ''#'')"
    by code_simp+
  have b: "length (comma_fields (strip ?x)) = 1" by code_simp
  have c: "strip ?x = str ''no-comma-here''" by code_simp
  have d: "strip ?y \<noteq> []" "\<not> startswith (strip ?y) (str ''#'')"
    by code_simp+
  have e: "length (comma_fields (strip ?y)) = 2" by code_simp
  have f: "strip (comma_fields (strip ?y) ! 0) = str ''ads''"
    "strip (comma_fields (strip ?y) ! 1) = str ''http://h/l''"
    by code_simp+
  from manifest_line_cut_once [OF a, of latin1_db "map_of []" initial_state "[]" "[]"] b
  have 1: "process_line latin1_db (map_of []) initial_state ?x
      = Inr (initial_state\<lparr>log := log initial_state @ [Skipping_invalid_line (strip ?x)]\<rparr>)"
    by blast
  have skipped: "process_line latin1_db (map_of []) initial_state ?x
       = Inr \<lparr>blocklists = [], all_rules = {},
              log = [Skipping_invalid_line (str ''no-comma-here'')]\<rparr>"
    using 1 c by (simp add: initial_state_def)
  from manifest_line_cut_once [OF d, of latin1_db "map_of []" initial_state "[]" "[]"] e
  have "process_line latin1_db (map_of []) initial_state ?y
      = fetch_and_store latin1_db (map_of []) initial_state (strip (comma_fields (strip ?y) ! 0))
          (strip (comma_fields (strip ?y) ! 1))"
    by blast
  then have 2: "process_line latin1_db (map_of []) initial_state ?y
       = fetch_and_store latin1_db (map_of []) initial_state (str ''ads'') (str ''http://h/l'')"
    unfolding f .
  show ?thesis using a b d e skipped 2 by blast
qed

subsection \<open>The order of the groups\<close>

lemma labels_make_site:
  "map country_code (map (make_site U iter) d) = map (\<lambda>g. upper U (fst g)) d"
  by (simp add: make_site_def)

lemma labels_entries:
  "map country_code (geosite_entries U iter d) = sort (map (\<lambda>g. upper U (fst g)) d)"
proof -
  have "mset (map country_code (geosite_entries U iter d))
      = mset (map country_code (map (make_site U iter) d))"
    by (simp only: geosite_entries_def mset_map mset_sort)
  then have "mset (map country_code (geosite_entries U iter d))
      = mset (map (\<lambda>g. upper U (fst g)) d)"
    by (simp only: labels_make_site)
  moreover have "sorted (map country_code (geosite_entries U iter d))"
    by (simp add: geosite_entries_def)
  ultimately show ?thesis by (rule properties_for_sort [symmetric])
qed

lemma filter_unique_key:
  assumes d: "distinct (map f xs)" and m: "mset ys = mset xs"
  shows "filter (\<lambda>x. f x = c) ys = filter (\<lambda>x. f x = c) xs"
proof -
  let ?A = "filter (\<lambda>x. f x = c) xs" and ?B = "filter (\<lambda>x. f x = c) ys"
  have mAB: "mset ?B = mset ?A" using m by simp
  have dA: "distinct (map f ?A)" using d by (rule distinct_map_filter)
  have cA: "\<forall>x \<in> set ?A. f x = c" by simp
  have "length ?A \<le> 1"
  proof (cases ?A)
    case Nil
    then show ?thesis by simp
  next
    case (Cons a as)
    have "as = []"
    proof (cases as)
      case Nil
      then show ?thesis .
    next
      case (Cons b bs)
      then have "f a = c" "f b = c" using cA \<open>?A = a # as\<close> by auto
      then show ?thesis using dA \<open>?A = a # as\<close> Cons by auto
    qed
    then show ?thesis using Cons by simp
  qed
  then consider "?A = []" | a where "?A = [a]"
    by (cases ?A) (auto simp: Suc_le_eq)
  then show ?thesis
  proof cases
    case 1
    then show ?thesis using mAB by simp
  next
    case 2
    then have "mset ?B = {#a#}" using mAB by simp
    then have "?B = [a]" by (simp only: mset_single_iff)
    then show ?thesis using 2 by simp
  qed
qed

lemma sort_key_permuted:
  assumes m: "mset ys = mset xs" and d: "distinct (map f xs)"
  shows "sort_key f ys = sort_key f xs"
proof (rule properties_for_sort_key)
  show "mset (sort_key f xs) = mset ys" using m by simp
  show "sorted (map f (sort_key f xs))" by simp
  fix k
  have "filter (\<lambda>x. f x = f k) (sort_key f xs) = filter (\<lambda>x. f x = f k) xs"
    by (rule sort_key_stable)
  also have "\<dots> = filter (\<lambda>x. f x = f k) ys"
    using d m by (rule filter_unique_key [symmetric])
  finally show "filter (\<lambda>x. f k = f x) (sort_key f xs) = filter (\<lambda>x. f k = f x) ys"
    by (simp add: eq_commute [of "f k"])
qed

lemma entries_permuted:
  assumes m: "mset d' = mset d" and u: "distinct (map (\<lambda>g. upper U (fst g)) d)"
  shows "geosite_entries U iter d' = geosite_entries U iter d"
proof -
  have "mset (map (make_site U iter) d') = mset (map (make_site U iter) d)" using m by simp
  moreover have "distinct (map country_code (map (make_site U iter) d))"
    using u by (simp only: labels_make_site)
  ultimately show ?thesis unfolding geosite_entries_def by (rule sort_key_permuted)
qed

lemma insort_key_map:
  "map h (insort_key (\<lambda>x. k (h x)) x xs) = insort_key k (h x) (map h xs)"
  by (induction xs) simp_all

lemma sort_key_map: "map h (sort_key (\<lambda>x. k (h x)) xs) = sort_key k (map h xs)"
  by (induction xs) (simp_all add: insort_key_map)

lemma unordered_make_site:
  assumes "distinct (iter (fst g) (snd g))" and "set (iter (fst g) (snd g)) = snd g"
  shows "unordered (make_site U iter g) = site_contents U g"
proof -
  have "mset_set (snd g) = mset (iter (fst g) (snd g))"
    using assms mset_set_set [of "iter (fst g) (snd g)"] by simp
  then show ?thesis by (simp add: unordered_def make_site_def site_contents_def)
qed

lemma unordered_entries:
  assumes "iterates iter d"
  shows "map unordered (geosite_entries U iter d) = sort_key fst (map (site_contents U) d)"
proof -
  have "country_code = (\<lambda>g. fst (unordered g))" by (simp add: unordered_def fun_eq_iff)
  then have "map unordered (geosite_entries U iter d)
      = map unordered (sort_key (\<lambda>g. fst (unordered g)) (map (make_site U iter) d))"
    by (simp add: geosite_entries_def)
  also have "\<dots> = sort_key fst (map unordered (map (make_site U iter) d))"
    by (rule sort_key_map)
  also have "map unordered (map (make_site U iter) d) = map (site_contents U) d"
    using assms by (simp add: iterates_def list_all_iff unordered_make_site)
  finally show ?thesis .
qed

lemma unordered_permuted:
  assumes "mset d' = mset d" and "distinct (map (\<lambda>g. upper U (fst g)) d)"
    and "iterates iter d" and "iterates iter' d'"
  shows "map unordered (geosite_entries U iter' d') = map unordered (geosite_entries U iter d)"
proof -
  have "mset (map (site_contents U) d') = mset (map (site_contents U) d)"
    using assms(1) by simp
  moreover have "distinct (map fst (map (site_contents U) d))"
    using assms(2) by (simp add: site_contents_def comp_def)
  ultimately have "sort_key fst (map (site_contents U) d')
      = sort_key fst (map (site_contents U) d)"
    by (rule sort_key_permuted)
  then show ?thesis using assms(3,4) by (simp add: unordered_entries)
qed

text \<open>
  The catalog does not fix the order of the entries of a group: two iterations of the
  same set give two outputs.
\<close>

lemma entry_order_not_fixed:
  "iterates sorted_iteration [(str ''a'', {(str ''domain'', str ''x.com''), (str ''full'', str ''y.com'')})]"
  "iterates reverse_iteration [(str ''a'', {(str ''domain'', str ''x.com''), (str ''full'', str ''y.com'')})]"
  "geosite_entries latin1_db sorted_iteration
      [(str ''a'', {(str ''domain'', str ''x.com''), (str ''full'', str ''y.com'')})]
     = [\<lparr>country_code = str ''A'', domain = [(RootDomain, str ''x.com''), (Full, str ''y.com'')]\<rparr>]"
  "geosite_entries latin1_db reverse_iteration
      [(str ''a'', {(str ''domain'', str ''x.com''), (str ''full'', str ''y.com'')})]
     = [\<lparr>country_code = str ''A'', domain = [(Full, str ''y.com''), (RootDomain, str ''x.com'')]\<rparr>]"
  by code_simp+

text \<open>
  Names that differ in case beyond ASCII have the same label too: the e with acute
  accent and its capital.
\<close>

lemma equal_labels_beyond_ascii:
  "map country_code (geosite_entries latin1_db sorted_iteration [([0xE9], {}), ([0xC9], {})])
     = [[0xC9], [0xC9]]"
  by code_simp

text \<open>
  Claim C4, as stated, fails: the names \<^verbatim>\<open>a\<close> and \<^verbatim>\<open>A\<close> have the same label, the sort is
  stable, and the two groups come out in the order of their insertion, whatever the
  order of the entries within a group.
\<close>

theorem equal_labels_keep_insertion_order_counterexample:
  "mset [(str ''a'', {(str ''domain'', str ''x.com'')}), (str ''A'', {(str ''domain'', str ''y.com'')})]
     = mset [(str ''A'', {(str ''domain'', str ''y.com'')}), (str ''a'', {(str ''domain'', str ''x.com'')})]
   \<and> geosite_entries latin1_db sorted_iteration
        [(str ''a'', {(str ''domain'', str ''x.com'')}), (str ''A'', {(str ''domain'', str ''y.com'')})]
     = [\<lparr>country_code = str ''A'', domain = [(RootDomain, str ''x.com'')]\<rparr>,
        \<lparr>country_code = str ''A'', domain = [(RootDomain, str ''y.com'')]\<rparr>]
   \<and> geosite_entries latin1_db sorted_iteration
        [(str ''A'', {(str ''domain'', str ''y.com'')}), (str ''a'', {(str ''domain'', str ''x.com'')})]
     = [\<lparr>country_code = str ''A'', domain = [(RootDomain, str ''y.com'')]\<rparr>,
        \<lparr>country_code = str ''A'', domain = [(RootDomain, str ''x.com'')]\<rparr>]
   \<and> [\<lparr>country_code = str ''A'', domain = [(RootDomain, str ''x.com'')]\<rparr>,
        \<lparr>country_code = str ''A'', domain = [(RootDomain, str ''y.com'')]\<rparr>]
     \<noteq> [\<lparr>country_code = str ''A'', domain = [(RootDomain, str ''y.com'')]\<rparr>,
        \<lparr>country_code = str ''A'', domain = [(RootDomain, str ''x.com'')]\<rparr>]"
proof -
  have 1: "mset [(str ''a'', {(str ''domain'', str ''x.com'')}), (str ''A'', {(str ''domain'', str ''y.com'')})]
     = mset [(str ''A'', {(str ''domain'', str ''y.com'')}), (str ''a'', {(str ''domain'', str ''x.com'')})]"
    by simp
  have 2: "geosite_entries latin1_db sorted_iteration
        [(str ''a'', {(str ''domain'', str ''x.com'')}), (str ''A'', {(str ''domain'', str ''y.com'')})]
     = [\<lparr>country_code = str ''A'', domain = [(RootDomain, str ''x.com'')]\<rparr>,
        \<lparr>country_code = str ''A'', domain = [(RootDomain, str ''y.com'')]\<rparr>]"
    by code_simp
  have 3: "geosite_entries latin1_db sorted_iteration
        [(str ''A'', {(str ''domain'', str ''y.com'')}), (str ''a'', {(str ''domain'', str ''x.com'')})]
     = [\<lparr>country_code = str ''A'', domain = [(RootDomain, str ''y.com'')]\<rparr>,
        \<lparr>country_code = str ''A'', domain = [(RootDomain, str ''x.com'')]\<rparr>]"
    by code_simp
  have 4: "[\<lparr>country_code = str ''A'', domain = [(RootDomain, str ''x.com'')]\<rparr>,
        \<lparr>country_code = str ''A'', domain = [(RootDomain, str ''y.com'')]\<rparr>]
     \<noteq> [\<lparr>country_code = str ''A'', domain = [(RootDomain, str ''y.com'')]\<rparr>,
        \<lparr>country_code = str ''A'', domain = [(RootDomain, str ''x.com'')]\<rparr>]"
    by (simp add: str_def)
  show ?thesis using 1 2 3 4 by blast
qed

text \<open>
  Claim C4, amended. The groups of the output are sorted by label, and the sequence of
  labels depends only on the groups of the catalog, not on the order of their
  insertion. When no two names have the same label in upper case, two assemblies of the
  same groups inserted in different orders give the same sequence of groups, each with
  the same entries: the same output when the sets are iterated in the same order, and
  the same output up to the order of the entries within each group whatever the
  iterations. The catalog of the sources \<^verbatim>\<open>A\<close> and \<^verbatim>\<open>B\<close> and the combined list gives the
  labels \<^verbatim>\<open>A\<close>, \<^verbatim>\<open>B\<close>, \<^verbatim>\<open>BLOCKLISTS-ALL\<close>.
\<close>

theorem groups_sorted_by_label:
  "sorted (map country_code (geosite_entries U iter d))
   \<and> map country_code (geosite_entries U iter d) = sort (map (\<lambda>g. upper U (fst g)) d)
   \<and> (mset d' = mset d \<longrightarrow>
        map country_code (geosite_entries U iter' d') = map country_code (geosite_entries U iter d))
   \<and> (mset d' = mset d \<and> distinct (map (\<lambda>g. upper U (fst g)) d) \<longrightarrow>
        geosite_entries U iter d' = geosite_entries U iter d)
   \<and> (mset d' = mset d \<and> distinct (map (\<lambda>g. upper U (fst g)) d) \<and>
      iterates iter d \<and> iterates iter' d' \<longrightarrow>
        map unordered (geosite_entries U iter' d') = map unordered (geosite_entries U iter d))
   \<and> map country_code
        (geosite_entries U iter [(str ''A'', ra), (str ''B'', rb), (str ''blocklists-all'', ra \<union> rb)])
       = [str ''A'', str ''B'', str ''BLOCKLISTS-ALL'']"
proof (intro conjI impI)
  show "sorted (map country_code (geosite_entries U iter d))"
    by (simp add: geosite_entries_def)
next
  show "map country_code (geosite_entries U iter d) = sort (map (\<lambda>g. upper U (fst g)) d)"
    by (rule labels_entries)
next
  assume m: "mset d' = mset d"
  have "mset (sort (map (\<lambda>g. upper U (fst g)) d)) = mset (map (\<lambda>g. upper U (fst g)) d')"
    using m by simp
  moreover have "sorted (sort (map (\<lambda>g. upper U (fst g)) d))" by simp
  ultimately have "sort (map (\<lambda>g. upper U (fst g)) d') = sort (map (\<lambda>g. upper U (fst g)) d)"
    by (intro properties_for_sort) simp_all
  then show "map country_code (geosite_entries U iter' d')
      = map country_code (geosite_entries U iter d)"
    by (simp only: labels_entries)
next
  assume a: "mset d' = mset d \<and> distinct (map (\<lambda>g. upper U (fst g)) d)"
  from a have "mset d' = mset d" by (rule conjunct1)
  moreover from a have "distinct (map (\<lambda>g. upper U (fst g)) d)" by (rule conjunct2)
  ultimately show "geosite_entries U iter d' = geosite_entries U iter d"
    by (rule entries_permuted)
next
  assume a: "mset d' = mset d \<and> distinct (map (\<lambda>g. upper U (fst g)) d) \<and>
      iterates iter d \<and> iterates iter' d'"
  then have "mset d' = mset d" and "distinct (map (\<lambda>g. upper U (fst g)) d)"
    and "iterates iter d" and "iterates iter' d'"
    by blast+
  then show "map unordered (geosite_entries U iter' d')
      = map unordered (geosite_entries U iter d)"
    by (rule unordered_permuted)
next
  show "map country_code
      (geosite_entries U iter [(str ''A'', ra), (str ''B'', rb), (str ''blocklists-all'', ra \<union> rb)])
       = [str ''A'', str ''B'', str ''BLOCKLISTS-ALL'']"
    by (simp add: geosite_entries_def make_site_def upper_def is_ascii_def ascii_upper_def
        str_def)
qed

theorem groups_sorted_by_label_witness:
  "mset [(str ''zeta'', {(str ''full'', str ''z.org''), (str ''domain'', str ''a.org'')}),
         (str ''blocklists-all'', {(str ''full'', str ''z.org''), (str ''domain'', str ''a.org'')}),
         (str ''Ads'', {})]
     = mset [(str ''Ads'', {}),
         (str ''zeta'', {(str ''full'', str ''z.org''), (str ''domain'', str ''a.org'')}),
         (str ''blocklists-all'', {(str ''full'', str ''z.org''), (str ''domain'', str ''a.org'')})]
   \<and> distinct (map (\<lambda>g. upper latin1_db (fst g))
        [(str ''Ads'', {}),
         (str ''zeta'', {(str ''full'', str ''z.org''), (str ''domain'', str ''a.org'')}),
         (str ''blocklists-all'', {(str ''full'', str ''z.org''), (str ''domain'', str ''a.org'')})])
   \<and> map unordered (geosite_entries latin1_db reverse_iteration
        [(str ''zeta'', {(str ''full'', str ''z.org''), (str ''domain'', str ''a.org'')}),
         (str ''blocklists-all'', {(str ''full'', str ''z.org''), (str ''domain'', str ''a.org'')}),
         (str ''Ads'', {})])
     = [(str ''ADS'', {#}),
        (str ''BLOCKLISTS-ALL'', {#(RootDomain, str ''a.org''), (Full, str ''z.org'')#}),
        (str ''ZETA'', {#(RootDomain, str ''a.org''), (Full, str ''z.org'')#})]"
proof -
  let ?r = "{(str ''full'', str ''z.org''), (str ''domain'', str ''a.org'')}"
  let ?d' = "[(str ''zeta'', ?r), (str ''blocklists-all'', ?r), (str ''Ads'', {})]"
  let ?d = "[(str ''Ads'', {}), (str ''zeta'', ?r), (str ''blocklists-all'', ?r)]"
  have m: "mset ?d' = mset ?d" by simp
  have u: "distinct (map (\<lambda>g. upper latin1_db (fst g)) ?d)" by code_simp
  have i: "iterates sorted_iteration ?d" by code_simp
  have i': "iterates reverse_iteration ?d'" by code_simp
  have e: "geosite_entries latin1_db sorted_iteration ?d
     = [\<lparr>country_code = str ''ADS'', domain = []\<rparr>,
        \<lparr>country_code = str ''BLOCKLISTS-ALL'',
           domain = [(RootDomain, str ''a.org''), (Full, str ''z.org'')]\<rparr>,
        \<lparr>country_code = str ''ZETA'',
           domain = [(RootDomain, str ''a.org''), (Full, str ''z.org'')]\<rparr>]"
    by code_simp
  from groups_sorted_by_label [of latin1_db sorted_iteration ?d ?d' reverse_iteration] m u i i'
  have "map unordered (geosite_entries latin1_db reverse_iteration ?d')
      = map unordered (geosite_entries latin1_db sorted_iteration ?d)"
    by blast
  then have "map unordered (geosite_entries latin1_db reverse_iteration ?d')
     = [(str ''ADS'', {#}),
        (str ''BLOCKLISTS-ALL'', {#(RootDomain, str ''a.org''), (Full, str ''z.org'')#}),
        (str ''ZETA'', {#(RootDomain, str ''a.org''), (Full, str ''z.org'')#})]"
    unfolding e by (simp add: unordered_def)
  with m u show ?thesis by blast
qed

end
